theory Spec2Isabelle
  imports Complex_Main "HOL-Library.Log_Nat"
begin

section \<open>Python values used by the stimulus generator\<close>

text \<open>
  The two programs (\<^verbatim>\<open>main.py\<close>, the interactive player, and \<^verbatim>\<open>video_writer.py\<close>,
  the video renderer) share three pieces of logic: \<^verbatim>\<open>parse_svg_str\<close>, \<^verbatim>\<open>curve_as_points\<close>
  with its local generator \<^verbatim>\<open>drange\<close>, and \<^verbatim>\<open>save_curve_points\<close>. They compute with
  Python \<^verbatim>\<open>float\<close> (IEEE binary64) and \<^verbatim>\<open>decimal.Decimal\<close> (default context:
  28 significant digits, round-half-even). Both are modelled by their exact rational
  values, with the rounding of every operation written out.
\<close>

datatype error =
    ValueError | IndexError | KeyError | ZeroDivisionError | SyntaxError
  | AssertionError | InvalidOperation | UnboundLocalError | SystemExit | OSError

text \<open>Sequencing of fallible steps: the first exception raised propagates.\<close>

definition bind_err :: "error + 'a \<Rightarrow> ('a \<Rightarrow> error + 'b) \<Rightarrow> error + 'b" where
  "bind_err m f = (case m of Inl e \<Rightarrow> Inl e | Inr v \<Rightarrow> f v)"

subsection \<open>Rounding\<close>

text \<open>Round to the nearest integer, ties to the even neighbour.\<close>

definition round_half_even :: "rat \<Rightarrow> int" where
  "round_half_even x =
     (let n = \<lfloor>x\<rfloor>; r = x - of_int n
      in if r < 1 / 2 then n
         else if 1 / 2 < r then n + 1
         else if even n then n else n + 1)"

text \<open>\<open>ilog b x\<close> is the exponent \<open>e\<close> with \<open>b^e \<le> x < b^(e+1)\<close>, for \<open>x > 0\<close>.\<close>

definition ilog :: "nat \<Rightarrow> rat \<Rightarrow> int" where
  "ilog b x =
     (let p = nat (fst (quotient_of x)); q = nat (snd (quotient_of x));
          d = int (floorlog b p) - int (floorlog b q)
      in if of_nat b powi d \<le> x then d else d - 1)"

text \<open>
  Rounding to \<open>p\<close> significant digits in base \<open>b\<close>, ties to even, with the exponent
  of the leading digit not below \<open>emin\<close> (below it the spacing stays that of \<open>emin\<close>,
  as for the subnormal numbers of binary64).
\<close>

definition round_sig :: "nat \<Rightarrow> nat \<Rightarrow> int option \<Rightarrow> rat \<Rightarrow> rat" where
  "round_sig b p emin x =
     (if x = 0 then 0
      else let e0 = ilog b \<bar>x\<bar>;
               e = (case emin of None \<Rightarrow> e0 | Some m \<Rightarrow> max e0 m);
               q = of_nat b powi (e - int p + 1)
           in of_int (round_half_even (x / q)) * q)"

subsection \<open>float\<close>

text \<open>
  A Python float is a finite binary64 value, an infinity or a NaN. The two zeros are not
  distinguished (the programs divide by a zero of either sign with the same exception and
  never inspect the sign otherwise).
\<close>

datatype pyfloat = Fin rat | PInf | NInf | NaN

text \<open>Correctly rounded result of an exact value: 53 bits, overflow to an infinity.\<close>

definition fl_round :: "rat \<Rightarrow> pyfloat" where
  "fl_round x =
     (let v = round_sig 2 53 (Some (- 1022)) x
      in if 2 ^ 1024 \<le> v then PInf else if v \<le> - (2 ^ 1024) then NInf else Fin v)"

text \<open>The values a float variable can hold.\<close>

definition is_float :: "pyfloat \<Rightarrow> bool" where
  "is_float f = (case f of Fin r \<Rightarrow> fl_round r = Fin r | _ \<Rightarrow> True)"

text \<open>\<^verbatim>\<open>a * b\<close> on floats.\<close>

fun fmul :: "pyfloat \<Rightarrow> pyfloat \<Rightarrow> pyfloat" where
  "fmul NaN _ = NaN"
| "fmul _ NaN = NaN"
| "fmul (Fin a) (Fin b) = fl_round (a * b)"
| "fmul (Fin a) PInf = (if a = 0 then NaN else if 0 < a then PInf else NInf)"
| "fmul (Fin a) NInf = (if a = 0 then NaN else if 0 < a then NInf else PInf)"
| "fmul PInf (Fin b) = (if b = 0 then NaN else if 0 < b then PInf else NInf)"
| "fmul NInf (Fin b) = (if b = 0 then NaN else if 0 < b then NInf else PInf)"
| "fmul PInf PInf = PInf"
| "fmul PInf NInf = NInf"
| "fmul NInf PInf = NInf"
| "fmul NInf NInf = PInf"

text \<open>\<^verbatim>\<open>a / b\<close> on floats: a zero divisor raises, everything else follows IEEE.\<close>

fun truediv :: "pyfloat \<Rightarrow> pyfloat \<Rightarrow> error + pyfloat" where
  "truediv a (Fin b) =
     (if b = 0 then Inl ZeroDivisionError
      else case a of
             Fin x \<Rightarrow> Inr (fl_round (x / b))
           | PInf \<Rightarrow> Inr (if 0 < b then PInf else NInf)
           | NInf \<Rightarrow> Inr (if 0 < b then NInf else PInf)
           | NaN \<Rightarrow> Inr NaN)"
| "truediv a NaN = Inr NaN"
| "truediv a b = (case a of Fin x \<Rightarrow> Inr (Fin 0) | _ \<Rightarrow> Inr NaN)"

subsection \<open>decimal.Decimal\<close>

datatype pydec = DFin rat | DPInf | DNInf | DNaN

text \<open>\<^verbatim>\<open>decimal.Decimal(f)\<close> of a float is exact.\<close>

fun Decimal :: "pyfloat \<Rightarrow> pydec" where
  "Decimal (Fin r) = DFin r"
| "Decimal PInf = DPInf"
| "Decimal NInf = DNInf"
| "Decimal NaN = DNaN"

text \<open>
  The default context rounds every arithmetic result to 28 significant digits, ties to
  even. Its exponent limits (\<open>\<plusminus>999999\<close>) are out of reach of sums of binary64 values and
  are left out.
\<close>

definition dec_round :: "rat \<Rightarrow> rat" where
  "dec_round x = round_sig 10 28 None x"

text \<open>\<^verbatim>\<open>x + d\<close>: a quiet NaN propagates; opposite infinities signal.\<close>

fun dec_add :: "pydec \<Rightarrow> pydec \<Rightarrow> error + pydec" where
  "dec_add DNaN _ = Inr DNaN"
| "dec_add _ DNaN = Inr DNaN"
| "dec_add (DFin a) (DFin b) = Inr (DFin (dec_round (a + b)))"
| "dec_add DPInf DNInf = Inl InvalidOperation"
| "dec_add DNInf DPInf = Inl InvalidOperation"
| "dec_add DPInf _ = Inr DPInf"
| "dec_add DNInf _ = Inr DNInf"
| "dec_add _ DPInf = Inr DPInf"
| "dec_add _ DNInf = Inr DNInf"

text \<open>\<^verbatim>\<open>x < y\<close>: an ordering comparison with a NaN signals.\<close>

fun dec_less :: "pydec \<Rightarrow> pydec \<Rightarrow> error + bool" where
  "dec_less DNaN _ = Inl InvalidOperation"
| "dec_less _ DNaN = Inl InvalidOperation"
| "dec_less (DFin a) (DFin b) = Inr (a < b)"
| "dec_less DNInf DNInf = Inr False"
| "dec_less DNInf _ = Inr True"
| "dec_less _ DNInf = Inr False"
| "dec_less DPInf _ = Inr False"
| "dec_less _ DPInf = Inr True"

text \<open>\<^verbatim>\<open>float(x)\<close> of a Decimal is correctly rounded.\<close>

fun float_of_dec :: "pydec \<Rightarrow> pyfloat" where
  "float_of_dec (DFin r) = fl_round r"
| "float_of_dec DPInf = PInf"
| "float_of_dec DNInf = NInf"
| "float_of_dec DNaN = NaN"


section \<open>The sampler: \<^verbatim>\<open>curve_as_points\<close> and its generator \<^verbatim>\<open>drange\<close>\<close>

text \<open>
  The curve is a \<^verbatim>\<open>BezierPath\<close> of the external \<^verbatim>\<open>beziers\<close> library. The programs use
  its \<^verbatim>\<open>length\<close> property and its method \<^verbatim>\<open>pointAtTime\<close>, which may raise; both are
  parameters of the model. A point carries its two coordinates.
\<close>

datatype point = Point (point_x: pyfloat) (point_y: pyfloat)

record curve =
  length_curve :: pyfloat
  pointAtTime :: "pyfloat \<Rightarrow> error + point"

text \<open>
  \<^verbatim>\<open>[f(t) for t in drange(x, y, jump)]\<close> with
  \<^verbatim>\<open>
  def drange(x, y, jump):
      while x < y:
          yield float(x)
          x += decimal.Decimal(jump)
  \<close>
  The generator and its consumer alternate: the test \<^verbatim>\<open>x < y\<close>, the yield of
  \<^verbatim>\<open>float(x)\<close>, the call of \<^verbatim>\<open>f\<close> on it, then the increment. The first exception of any
  of them ends the comprehension. The loop need not end: the result is \<open>None\<close> when it
  runs forever.
\<close>

partial_function (option) drange_for ::
  "(pyfloat \<Rightarrow> error + 'a) \<Rightarrow> pydec \<Rightarrow> pydec \<Rightarrow> pyfloat \<Rightarrow> (error + 'a list) option" where
  "drange_for f x y jump =
     (case dec_less x y of
        Inl e \<Rightarrow> Some (Inl e)
      | Inr b \<Rightarrow>
          if b then
            (case f (float_of_dec x) of
               Inl e \<Rightarrow> Some (Inl e)
             | Inr p \<Rightarrow>
                 (case dec_add x (Decimal jump) of
                    Inl e \<Rightarrow> Some (Inl e)
                  | Inr x' \<Rightarrow>
                      Option.bind (drange_for f x' y jump)
                        (\<lambda>r. Some (case r of Inl e \<Rightarrow> Inl e | Inr ps \<Rightarrow> Inr (p # ps)))))
          else Some (Inr []))"

text \<open>\<^verbatim>\<open>list(drange(x, y, jump))\<close>: the parameters the generator yields.\<close>

definition drange :: "pydec \<Rightarrow> pydec \<Rightarrow> pyfloat \<Rightarrow> (error + pyfloat list) option" where
  "drange x y jump = drange_for Inr x y jump"

text \<open>
  The comprehension both programs run,
  \<^verbatim>\<open>[curve.pointAtTime(t) for t in drange(0, 1, time_step)]\<close>.
\<close>

definition sample_points :: "curve \<Rightarrow> pyfloat \<Rightarrow> (error + point list) option" where
  "sample_points c time_step = drange_for (pointAtTime c) (DFin 0) (DFin 1) time_step"

text \<open>
  \<^verbatim>\<open>video_writer.py\<close>:
  \<^verbatim>\<open>
  time_step = 1 / (curve.length * tpf)
  points = [curve.pointAtTime(t) for t in drange(0, 1, time_step)]
  return points
  \<close>
\<close>

definition curve_as_points_video :: "curve \<Rightarrow> pyfloat \<Rightarrow> (error + point list) option" where
  "curve_as_points_video c tpf =
     (case truediv (Fin 1) (fmul (length_curve c) tpf) of
        Inl e \<Rightarrow> Some (Inl e)
      | Inr time_step \<Rightarrow> sample_points c time_step)"

text \<open>
  \<^verbatim>\<open>main.py\<close>:
  \<^verbatim>\<open>
  length = self.curve.length
  time_step = 1 / length
  points = [self.curve.pointAtTime(t) for t in drange(0, 1, time_step)]
  return [[x, y] for (x, y) in zip([p.x for p in points], [p.y for p in points])]
  \<close>
\<close>

definition curve_as_points_main :: "curve \<Rightarrow> (error + pyfloat list list) option" where
  "curve_as_points_main c =
     (case truediv (Fin 1) (length_curve c) of
        Inl e \<Rightarrow> Some (Inl e)
      | Inr time_step \<Rightarrow>
          Option.bind (sample_points c time_step)
            (\<lambda>r. Some (case r of
                 Inl e \<Rightarrow> Inl e
               | Inr points \<Rightarrow>
                   Inr (map (\<lambda>(x, y). [x, y])
                          (zip (map point_x points) (map point_y points))))))"

text \<open>
  The accumulator of \<^verbatim>\<open>drange\<close> after \<open>i\<close> increments by a finite \<open>s\<close>, starting
  from \<open>x\<close>: each addition is rounded to 28 digits.
\<close>

fun acc :: "rat \<Rightarrow> rat \<Rightarrow> nat \<Rightarrow> rat" where
  "acc x s 0 = x"
| "acc x s (Suc i) = dec_round (acc x s i + s)"

text \<open>
  A model is valid when its position function is defined on the whole parameter
  range \<open>[0, 1]\<close>.
\<close>

definition valid_model :: "curve \<Rightarrow> bool" where
  "valid_model c \<longleftrightarrow> (\<forall>t. 0 \<le> t \<and> t \<le> 1 \<longrightarrow> (\<exists>p. pointAtTime c (Fin t) = Inr p))"

subsection \<open>Three concrete curves\<close>

text \<open>
  Modelled from the spec: \<^verbatim>\<open>pointAtTime\<close> belongs to the external \<^verbatim>\<open>beziers\<close> library and
  is not part of the sources. For a single cubic segment the spec (4.2) evaluates the
  position by the standard cubic-Bezier blending formula; here each coordinate is
  computed exactly and rounded once.
\<close>

definition cubic_bezier ::
  "rat \<times> rat \<Rightarrow> rat \<times> rat \<Rightarrow> rat \<times> rat \<Rightarrow> rat \<times> rat \<Rightarrow> rat \<Rightarrow> point" where
  "cubic_bezier p0 p1 p2 p3 t =
     (let b0 = (1 - t) ^ 3; b1 = 3 * (1 - t) ^ 2 * t; b2 = 3 * (1 - t) * t ^ 2; b3 = t ^ 3
      in Point (fl_round (b0 * fst p0 + b1 * fst p1 + b2 * fst p2 + b3 * fst p3))
               (fl_round (b0 * snd p0 + b1 * snd p1 + b2 * snd p2 + b3 * snd p3)))"

text \<open>
  The path of the spec's scenario: one cubic segment with anchors \<open>(0,0)\<close> and \<open>(10,0)\<close>
  and controls \<open>(0,10)\<close> and \<open>(10,10)\<close>; its arc length is 20. Outside \<open>[0, 1]\<close> the
  position function raises.
\<close>

definition arch :: curve where
  "arch = \<lparr> length_curve = Fin 20,
            pointAtTime = (\<lambda>t. case t of
                Fin r \<Rightarrow> if 0 \<le> r \<and> r \<le> 1
                         then Inr (cubic_bezier (0, 0) (0, 10) (10, 10) (10, 0) r)
                         else Inl IndexError
              | _ \<Rightarrow> Inl ValueError) \<rparr>"

text \<open>
  A degenerate path: a single point at the origin, of length zero, whose position is
  that point for every parameter.
\<close>

definition single_point :: curve where
  "single_point = \<lparr> length_curve = Fin 0,
                    pointAtTime = (\<lambda>t. Inr (Point (Fin 0) (Fin 0))) \<rparr>"

text \<open>
  The straight path from \<open>(0,0)\<close> to \<open>(9,12)\<close>, of length 15: the path that the nodes
  parsed from the string \<^verbatim>\<open>"M 0 0 L 9 12"\<close> describe. As for \<^const>\<open>arch\<close>, the position
  function is modelled from the spec (4.2): the blend of the two anchors, each coordinate
  computed exactly and rounded once; outside \<open>[0, 1]\<close> it raises.
\<close>

definition segment :: curve where
  "segment = \<lparr> length_curve = Fin 15,
               pointAtTime = (\<lambda>t. case t of
                   Fin r \<Rightarrow> if 0 \<le> r \<and> r \<le> 1
                            then Inr (Point (fl_round (9 * r)) (fl_round (12 * r)))
                            else Inl IndexError
                 | _ \<Rightarrow> Inl ValueError) \<rparr>"

section \<open>The parser: \<^verbatim>\<open>parse_svg_str\<close>\<close>

text \<open>
  A Python \<^verbatim>\<open>str\<close> is modelled as a \<^typ>\<open>string\<close> whose characters are the code points
  below 256.
\<close>

subsection \<open>String methods\<close>

text \<open>
  \<^verbatim>\<open>re.split(r"C|L", s)\<close> and \<^verbatim>\<open>s.split("L")\<close>: the pieces between the separator
  characters, empty pieces included; there is always at least one piece.
\<close>

fun split_at :: "(char \<Rightarrow> bool) \<Rightarrow> string \<Rightarrow> string list" where
  "split_at sep [] = [[]]"
| "split_at sep (c # cs) =
     (if sep c then [] # split_at sep cs
      else case split_at sep cs of
             p # ps \<Rightarrow> (c # p) # ps
           | [] \<Rightarrow> [[c]])"

text \<open>\<^verbatim>\<open>s.strip(chars)\<close>: drop the characters of \<open>chars\<close> from both ends.\<close>

definition strip_chars :: "string \<Rightarrow> string \<Rightarrow> string" where
  "strip_chars chars s =
     rev (dropWhile (\<lambda>c. c \<in> set chars) (rev (dropWhile (\<lambda>c. c \<in> set chars) s)))"

text \<open>The characters with \<^verbatim>\<open>c.isspace()\<close> among the code points below 256.\<close>

definition whitespace :: string where
  "whitespace =
     [CHR 0x09, CHR 0x0A, CHR 0x0B, CHR 0x0C, CHR 0x0D, CHR 0x1C, CHR 0x1D, CHR 0x1E,
      CHR 0x1F, CHR 0x20, CHR 0x85, CHR 0xA0]"

definition is_space :: "char \<Rightarrow> bool" where
  "is_space c \<longleftrightarrow> c \<in> set whitespace"

text \<open>
  \<^verbatim>\<open>s.split()\<close>: the maximal runs of non-whitespace characters. The first argument
  collects the current run, reversed.
\<close>

fun split_ws :: "string \<Rightarrow> string \<Rightarrow> string list" where
  "split_ws cur [] = (if cur = [] then [] else [rev cur])"
| "split_ws cur (c # cs) =
     (if is_space c then (if cur = [] then split_ws [] cs else rev cur # split_ws [] cs)
      else split_ws (c # cur) cs)"

definition py_split :: "string \<Rightarrow> string list" where
  "py_split s = split_ws [] s"

subsection \<open>\<^verbatim>\<open>float(s)\<close> of a string\<close>

text \<open>
  The grammar of the builtin: optional sign, then \<^verbatim>\<open>inf\<close>, \<^verbatim>\<open>infinity\<close> or \<^verbatim>\<open>nan\<close> in
  any case, or a decimal number with an optional fraction and an optional exponent, in
  which single underscores may separate digits. Surrounding whitespace is ignored; of
  the whitespace characters below 256 the builtin does not strip the four separators
  \<open>0x1C\<close> to \<open>0x1F\<close>. The value is correctly rounded. \<open>None\<close> stands for
  \<^verbatim>\<open>ValueError\<close>.
\<close>

definition float_whitespace :: string where
  "float_whitespace =
     [CHR 0x09, CHR 0x0A, CHR 0x0B, CHR 0x0C, CHR 0x0D, CHR 0x20, CHR 0x85, CHR 0xA0]"

definition digits :: string where
  "digits = ''0123456789''"

definition is_digit :: "char \<Rightarrow> bool" where
  "is_digit c \<longleftrightarrow> c \<in> set digits"

text \<open>The value of a digit is its position in \<^const>\<open>digits\<close>.\<close>

definition digit_val :: "char \<Rightarrow> nat" where
  "digit_val c = length (takeWhile (\<lambda>d. d \<noteq> c) digits)"

text \<open>Digits after a first digit: each is a digit or an underscore followed by a digit.\<close>

fun more_digits :: "string \<Rightarrow> nat list \<times> string" where
  "more_digits [] = ([], [])"
| "more_digits [c] = (if is_digit c then ([digit_val c], []) else ([], [c]))"
| "more_digits (c # d # cs) =
     (if is_digit c then
        (case more_digits (d # cs) of (ds, r) \<Rightarrow> (digit_val c # ds, r))
      else if c = CHR ''_'' \<and> is_digit d then
        (case more_digits cs of (ds, r) \<Rightarrow> (digit_val d # ds, r))
      else ([], c # d # cs))"

definition digitpart :: "string \<Rightarrow> (nat list \<times> string) option" where
  "digitpart s =
     (case s of
        [] \<Rightarrow> None
      | c # cs \<Rightarrow>
          if is_digit c then (case more_digits cs of (ds, r) \<Rightarrow> Some (digit_val c # ds, r))
          else None)"

definition nat_of_digits :: "nat list \<Rightarrow> nat" where
  "nat_of_digits ds = foldl (\<lambda>a d. 10 * a + d) 0 ds"

definition take_sign :: "string \<Rightarrow> bool \<times> string" where
  "take_sign s =
     (case s of
        c # cs \<Rightarrow> if c = CHR ''-'' then (True, cs) else if c = CHR ''+'' then (False, cs)
                  else (False, s)
      | [] \<Rightarrow> (False, s))"

text \<open>The exponent part: empty, or \<^verbatim>\<open>e\<close>, an optional sign and digits up to the end.\<close>

definition exponent :: "string \<Rightarrow> int option" where
  "exponent s =
     (case s of
        [] \<Rightarrow> Some 0
      | c # cs \<Rightarrow>
          if c = CHR ''e'' \<or> c = CHR ''E'' then
            (case take_sign cs of
               (neg, r) \<Rightarrow>
                 (case digitpart r of
                    Some (ds, []) \<Rightarrow>
                      Some (if neg then - int (nat_of_digits ds) else int (nat_of_digits ds))
                  | _ \<Rightarrow> None))
          else None)"

text \<open>Comparison with a lower-case word, ignoring case.\<close>

definition upper :: "char \<Rightarrow> char" where
  "upper c =
     (if c = CHR ''a'' then CHR ''A'' else if c = CHR ''f'' then CHR ''F''
      else if c = CHR ''i'' then CHR ''I'' else if c = CHR ''n'' then CHR ''N''
      else if c = CHR ''t'' then CHR ''T'' else if c = CHR ''y'' then CHR ''Y'' else c)"

definition ci_match :: "string \<Rightarrow> string \<Rightarrow> bool" where
  "ci_match word s \<longleftrightarrow> list_all2 (\<lambda>w c. c = w \<or> c = upper w) word s"

text \<open>The unsigned number: integer part, optional fraction, optional exponent.\<close>

definition number :: "string \<Rightarrow> rat option" where
  "number s =
     (let (ip, r1) = (case digitpart s of Some (ds, r) \<Rightarrow> (ds, r) | None \<Rightarrow> ([], s));
          (fp, r2) = (case r1 of
                        c # cs \<Rightarrow>
                          if c = CHR ''.'' then
                            (case digitpart cs of Some (ds, r) \<Rightarrow> (ds, r) | None \<Rightarrow> ([], cs))
                          else ([], r1)
                      | [] \<Rightarrow> ([], r1))
      in if ip = [] \<and> fp = [] then None
         else case exponent r2 of
                None \<Rightarrow> None
              | Some e \<Rightarrow>
                  Some (of_nat (nat_of_digits (ip @ fp)) * 10 powi (e - int (length fp))))"

definition py_float :: "string \<Rightarrow> pyfloat option" where
  "py_float s =
     (case take_sign (strip_chars float_whitespace s) of
        (neg, body) \<Rightarrow>
          if ci_match ''inf'' body \<or> ci_match ''infinity'' body
          then Some (if neg then NInf else PInf)
          else if ci_match ''nan'' body then Some NaN
          else case number body of
                 None \<Rightarrow> None
               | Some v \<Rightarrow> Some (fl_round (if neg then - v else v)))"

subsection \<open>Nodes and the parser\<close>

text \<open>A \<^verbatim>\<open>Node\<close> of the external library: two coordinates and a type string.\<close>

datatype node = Node (node_x: pyfloat) (node_y: pyfloat) (node_type: string)

text \<open>\<^verbatim>\<open>xs[i]\<close> for an index \<open>i \<ge> 0\<close>.\<close>

definition idx :: "'a list \<Rightarrow> nat \<Rightarrow> error + 'a" where
  "idx xs i = (if i < length xs then Inr (xs ! i) else Inl IndexError)"

text \<open>
  \<^verbatim>\<open>paths = [svg_part.strip(" ZM").split("L") for svg_part in re.split(r"C|L", svg_str)]\<close>
\<close>

definition svg_parts :: "string \<Rightarrow> string list list" where
  "svg_parts svg_str =
     map (\<lambda>svg_part. split_at (\<lambda>c. c = CHR ''L'') (strip_chars '' ZM'' svg_part))
         (split_at (\<lambda>c. c = CHR ''C'' \<or> c = CHR ''L'') svg_str)"

text \<open>
  The chunks the numbers are read from: the pieces of the string between the command
  letters \<^verbatim>\<open>C\<close> and \<^verbatim>\<open>L\<close>, stripped, that are longer than one character.
\<close>

definition chunks :: "string \<Rightarrow> string list" where
  "chunks svg_str =
     filter (\<lambda>c. 1 < length c)
       (map (strip_chars '' ZM'') (split_at (\<lambda>c. c = CHR ''C'' \<or> c = CHR ''L'') svg_str))"

text \<open>\<^verbatim>\<open>[float(elem) for elem in tokens]\<close>\<close>

fun floats_of :: "string list \<Rightarrow> error + pyfloat list" where
  "floats_of [] = Inr []"
| "floats_of (t # ts) =
     (case py_float t of
        None \<Rightarrow> Inl ValueError
      | Some v \<Rightarrow> bind_err (floats_of ts) (\<lambda>vs. Inr (v # vs)))"

text \<open>
  \<^verbatim>\<open>paths = [[float(elem) for elem in elem[0].split()] for elem in paths if len(elem[0]) > 1]\<close>
\<close>

fun paths_of :: "string list list \<Rightarrow> error + pyfloat list list" where
  "paths_of [] = Inr []"
| "paths_of (elem # rest) =
     bind_err (idx elem 0) (\<lambda>e0.
       if length e0 > 1 then
         bind_err (floats_of (py_split e0)) (\<lambda>p.
           bind_err (paths_of rest) (\<lambda>ps. Inr (p # ps)))
       else paths_of rest)"

text \<open>
  The loop of \<^verbatim>\<open>video_writer.py\<close>, with \<open>n = len(paths)\<close> and \<open>i\<close> the running index:
  \<^verbatim>\<open>
  for i, path in enumerate(paths):
      if (i == 0) or (i == len(paths) - 1):
          nodes.append(Node(x=path[0], y=path[1], type="curve"))
      else:
          nodes.append(Node(x=path[0], y=path[1], type="offcurve"))
          nodes.append(Node(x=path[2], y=path[3], type="offcurve"))
          nodes.append(Node(x=path[4], y=path[5], type="curve"))
  \<close>
\<close>

definition nodes_of_path :: "nat \<Rightarrow> nat \<Rightarrow> pyfloat list \<Rightarrow> error + node list" where
  "nodes_of_path n i path =
     (if i = 0 \<or> int i = int n - 1 then
        bind_err (idx path 0) (\<lambda>x0. bind_err (idx path 1) (\<lambda>y0.
          Inr [Node x0 y0 ''curve'']))
      else
        bind_err (idx path 0) (\<lambda>x0. bind_err (idx path 1) (\<lambda>y0.
        bind_err (idx path 2) (\<lambda>x1. bind_err (idx path 3) (\<lambda>y1.
        bind_err (idx path 4) (\<lambda>x2. bind_err (idx path 5) (\<lambda>y2.
          Inr [Node x0 y0 ''offcurve'', Node x1 y1 ''offcurve'', Node x2 y2 ''curve''])))))))"

fun nodes_loop :: "nat \<Rightarrow> nat \<Rightarrow> pyfloat list list \<Rightarrow> error + node list" where
  "nodes_loop n i [] = Inr []"
| "nodes_loop n i (path # rest) =
     bind_err (nodes_of_path n i path) (\<lambda>new.
       bind_err (nodes_loop n (Suc i) rest) (\<lambda>more. Inr (new @ more)))"

definition parse_svg_str :: "string \<Rightarrow> error + node list" where
  "parse_svg_str svg_str =
     bind_err (paths_of (svg_parts svg_str)) (\<lambda>paths. nodes_loop (length paths) 0 paths)"

text \<open>
  \<^verbatim>\<open>main.py\<close> has the same function with one more statement in the else branch,
  \<^verbatim>\<open>assert (len(path) == 6, "Expected Cubic Bezier curve!")\<close>. What is asserted there is a
  two-element tuple, and a non-empty tuple is true whatever its components are.
\<close>

definition assert_stmt :: "bool \<Rightarrow> error + unit" where
  "assert_stmt b = (if b then Inr () else Inl AssertionError)"

definition tuple_truth :: "'a \<times> 'b \<Rightarrow> bool" where
  "tuple_truth t = True"

definition nodes_of_path_main :: "nat \<Rightarrow> nat \<Rightarrow> pyfloat list \<Rightarrow> error + node list" where
  "nodes_of_path_main n i path =
     (if i = 0 \<or> int i = int n - 1 then
        bind_err (idx path 0) (\<lambda>x0. bind_err (idx path 1) (\<lambda>y0.
          Inr [Node x0 y0 ''curve'']))
      else
        bind_err (assert_stmt (tuple_truth (length path = 6, ''Expected Cubic Bezier curve!''))) (\<lambda>_.
        bind_err (idx path 0) (\<lambda>x0. bind_err (idx path 1) (\<lambda>y0.
        bind_err (idx path 2) (\<lambda>x1. bind_err (idx path 3) (\<lambda>y1.
        bind_err (idx path 4) (\<lambda>x2. bind_err (idx path 5) (\<lambda>y2.
          Inr [Node x0 y0 ''offcurve'', Node x1 y1 ''offcurve'', Node x2 y2 ''curve'']))))))))"

fun nodes_loop_main :: "nat \<Rightarrow> nat \<Rightarrow> pyfloat list list \<Rightarrow> error + node list" where
  "nodes_loop_main n i [] = Inr []"
| "nodes_loop_main n i (path # rest) =
     bind_err (nodes_of_path_main n i path) (\<lambda>new.
       bind_err (nodes_loop_main n (Suc i) rest) (\<lambda>more. Inr (new @ more)))"

definition parse_svg_str_main :: "string \<Rightarrow> error + node list" where
  "parse_svg_str_main svg_str =
     bind_err (paths_of (svg_parts svg_str)) (\<lambda>paths. nodes_loop_main (length paths) 0 paths)"

text \<open>
  The nodes a number list contributes: one on-curve node from its first two numbers, or
  two off-curve nodes and one on-curve node from its first six numbers. The first and
  the last of \<open>n\<close> lists contribute the former and need two numbers; the others contribute
  the latter and need six.
\<close>

definition anchor_of :: "pyfloat list \<Rightarrow> node list" where
  "anchor_of p = [Node (p ! 0) (p ! 1) ''curve'']"

definition controls_anchor_of :: "pyfloat list \<Rightarrow> node list" where
  "controls_anchor_of p =
     [Node (p ! 0) (p ! 1) ''offcurve'', Node (p ! 2) (p ! 3) ''offcurve'',
      Node (p ! 4) (p ! 5) ''curve'']"

definition needed :: "nat \<Rightarrow> nat \<Rightarrow> nat" where
  "needed n i = (if i = 0 \<or> Suc i = n then 2 else 6)"

text \<open>The number lists of the chunks of a string all of whose tokens are float literals.\<close>

definition numbers :: "string \<Rightarrow> pyfloat list list" where
  "numbers svg_str = map (\<lambda>c. map (the \<circ> py_float) (py_split c)) (chunks svg_str)"

text \<open>The nodes that the number lists from index \<open>i\<close> on contribute, in order.\<close>

fun shapes :: "nat \<Rightarrow> nat \<Rightarrow> pyfloat list list \<Rightarrow> node list" where
  "shapes n i [] = []"
| "shapes n i (p # ps) =
     (if i = 0 \<or> Suc i = n then anchor_of p else controls_anchor_of p) @ shapes n (Suc i) ps"

section \<open>The batch loader: \<^verbatim>\<open>create_curves\<close> of \<^verbatim>\<open>main.py\<close>\<close>

text \<open>
  Reading one file with the external XML library gives one of three things:
  \<^verbatim>\<open>ET.parse(file_name).getroot()\<close> raises; or it returns and
  \<^verbatim>\<open>root[0][0].attrib['d']\<close> raises; or the path string is obtained. A \<^verbatim>\<open>ParseError\<close> of
  the XML library is a \<^verbatim>\<open>SyntaxError\<close>.
\<close>

datatype svg_file = XmlError error | AttrError error | PathData string

text \<open>Which of the local variables of the try block have been assigned so far.\<close>

record locals =
  root_bound :: bool
  path_svg_bound :: bool
  node_list_bound :: bool

text \<open>The lines the two handlers print.\<close>

datatype log_line = ParsingErrorOnFile nat | AssertionFailed

text \<open>
  The body of the try block,
  \<^verbatim>\<open>
  root = ET.parse(file_name).getroot()
  path_svg = root[0][0].attrib['d']
  node_list = parse_svg_str(path_svg)
  curves[curve_idx] = BezierPath.fromNodelist(node_list)
  \<close>
  with \<^verbatim>\<open>BezierPath.fromNodelist\<close>, of the external library, as a parameter: the curve
  to store or the exception raised, and the variables assigned.
\<close>

definition try_body ::
  "(node list \<Rightarrow> error + 'c) \<Rightarrow> svg_file \<Rightarrow> locals \<Rightarrow> (error + 'c) \<times> locals" where
  "try_body fromNodelist file l =
     (case file of
        XmlError e \<Rightarrow> (Inl e, l)
      | AttrError e \<Rightarrow> (Inl e, l\<lparr>root_bound := True\<rparr>)
      | PathData path_svg \<Rightarrow>
          (case parse_svg_str_main path_svg of
             Inl e \<Rightarrow> (Inl e, l\<lparr>root_bound := True, path_svg_bound := True\<rparr>)
           | Inr node_list \<Rightarrow>
               (fromNodelist node_list,
                l\<lparr>root_bound := True, path_svg_bound := True, node_list_bound := True\<rparr>)))"

text \<open>
  The loop over the files with its two handlers, \<^verbatim>\<open>except SyntaxError\<close> and
  \<^verbatim>\<open>except AssertionError\<close>, which print a line and go on; any other exception leaves
  the function. The state is the dictionary \<^verbatim>\<open>curves\<close> (keys in insertion order), the
  assigned variables and the lines printed.
\<close>

fun curves_loop ::
  "(node list \<Rightarrow> error + 'c) \<Rightarrow> nat \<Rightarrow> svg_file list \<Rightarrow>
   (nat \<times> 'c) list \<times> locals \<times> log_line list \<Rightarrow>
   error + (nat \<times> 'c) list \<times> locals \<times> log_line list" where
  "curves_loop fromNodelist curve_idx [] st = Inr st"
| "curves_loop fromNodelist curve_idx (file # files) (curves, l, out) =
     (case try_body fromNodelist file l of
        (Inr curve, l') \<Rightarrow>
          curves_loop fromNodelist (Suc curve_idx) files (curves @ [(curve_idx, curve)], l', out)
      | (Inl e, l') \<Rightarrow>
          if e = SyntaxError then
            curves_loop fromNodelist (Suc curve_idx) files
              (curves, l', out @ [ParsingErrorOnFile curve_idx])
          else if e = AssertionError then
            curves_loop fromNodelist (Suc curve_idx) files (curves, l', out @ [AssertionFailed])
          else Inl e)"

text \<open>
  \<^verbatim>\<open>create_curves\<close> on the files that \<^verbatim>\<open>glob\<close> finds: without files the program exits;
  after the loop \<^verbatim>\<open>del root, path_svg, node_list\<close> raises when one of the three was never
  assigned. The \<^verbatim>\<open>verbose\<close> branches only print and are left out.
\<close>

definition create_curves ::
  "(node list \<Rightarrow> error + 'c) \<Rightarrow> svg_file list \<Rightarrow> error + (nat \<times> 'c) list \<times> log_line list" where
  "create_curves fromNodelist files =
     (if length files = 0 then Inl SystemExit
      else bind_err
             (curves_loop fromNodelist 0 files
                ([], \<lparr>root_bound = False, path_svg_bound = False, node_list_bound = False\<rparr>, []))
             (\<lambda>(curves, l, out).
                if root_bound l \<and> path_svg_bound l \<and> node_list_bound l then Inr (curves, out)
                else Inl UnboundLocalError))"

section \<open>Facts about the rounding functions\<close>

lemma ilog_bounds:
  assumes x: "0 < x" and b: "1 < b"
  shows "of_nat b powi ilog b x \<le> x \<and> x < of_nat b powi (ilog b x + 1)"
proof -
  define p where "p = fst (quotient_of x)"
  define q where "q = snd (quotient_of x)"
  define lp where "lp = floorlog b (nat p)"
  define lq where "lq = floorlog b (nat q)"
  define B :: rat where "B = of_nat b"
  have B1: "1 < B" using b by (simp add: B_def)
  have B0: "B \<noteq> 0" "0 < B" using B1 by auto
  have qpos: "0 < q" unfolding q_def by (rule quotient_of_denom_pos')
  have xeq: "x = of_int p / of_int q"
    unfolding p_def q_def by (metis Fract_of_int_quotient Fract_quotient_of)
  have ppos: "0 < p"
    using x qpos unfolding xeq by (simp add: zero_less_divide_iff)
  have bp: "b ^ (lp - 1) \<le> nat p \<and> nat p < b ^ lp"
    unfolding lp_def using floorlog_bounds[of "nat p" b] ppos b by simp
  have bq: "b ^ (lq - 1) \<le> nat q \<and> nat q < b ^ lq"
    unfolding lq_def using floorlog_bounds[of "nat q" b] qpos b by simp
  have lp1: "1 \<le> lp" unfolding lp_def using ppos b
    by (metis One_nat_def Suc_leI floorlog_eq_zero_iff neq0_conv not_le zero_less_nat_eq)
  have lq1: "1 \<le> lq" unfolding lq_def using qpos b
    by (metis One_nat_def Suc_leI floorlog_eq_zero_iff neq0_conv not_le zero_less_nat_eq)
  have P: "(of_int p :: rat) = of_nat (nat p)" using ppos by simp
  have Q: "(of_int q :: rat) = of_nat (nat q)" using qpos by simp
  have p_lo: "B ^ (lp - 1) \<le> of_int p"
    unfolding P B_def using bp by (metis of_nat_le_iff of_nat_power)
  have p_hi: "of_int p < B ^ lp"
    unfolding P B_def using bp by (metis of_nat_less_iff of_nat_power)
  have q_lo: "B ^ (lq - 1) \<le> of_int q"
    unfolding Q B_def using bq by (metis of_nat_le_iff of_nat_power)
  have q_hi: "of_int q < B ^ lq"
    unfolding Q B_def using bq by (metis of_nat_less_iff of_nat_power)
  have qr: "(0::rat) < of_int q" using qpos by simp
  define d where "d = int lp - int lq"
  have up: "x < B powi (d + 1)"
  proof -
    have "of_int p < B ^ lp" by (rule p_hi)
    also have "\<dots> = B powi (d + 1) * B ^ (lq - 1)"
    proof -
      have "B powi (d + 1) * B ^ (lq - 1) = B powi (d + 1) * B powi (int (lq - 1))" by simp
      also have "\<dots> = B powi (d + 1 + int (lq - 1))"
        using B0 by (simp add: power_int_add)
      also have "d + 1 + int (lq - 1) = int lp" unfolding d_def using lq1 by simp
      finally show ?thesis by simp
    qed
    also have "\<dots> \<le> B powi (d + 1) * of_int q"
      using q_lo B0 by (intro mult_left_mono) (auto intro: less_imp_le)
    finally have "of_int p < B powi (d + 1) * of_int q" .
    then show ?thesis unfolding xeq using qr by (simp add: pos_divide_less_eq)
  qed
  have lo: "B powi (d - 1) \<le> x"
  proof -
    have "B powi (d - 1) * of_int q \<le> B powi (d - 1) * B ^ lq"
      using q_hi B0 by (intro mult_left_mono) (auto intro: less_imp_le)
    also have "\<dots> = B ^ (lp - 1)"
    proof -
      have "B powi (d - 1) * B ^ lq = B powi (d - 1) * B powi (int lq)" by simp
      also have "\<dots> = B powi (d - 1 + int lq)"
        using B0 by (simp add: power_int_add)
      also have "d - 1 + int lq = int (lp - 1)" unfolding d_def using lp1 by simp
      finally show ?thesis by simp
    qed
    also have "\<dots> \<le> of_int p" by (rule p_lo)
    finally show ?thesis unfolding xeq using qr by (simp add: pos_le_divide_eq)
  qed
  have il: "ilog b x = (if B powi d \<le> x then d else d - 1)"
    unfolding ilog_def Let_def d_def lp_def lq_def p_def q_def B_def by simp
  show ?thesis
  proof (cases "B powi d \<le> x")
    case True
    then show ?thesis using up il unfolding B_def by simp
  next
    case False
    then show ?thesis using lo il unfolding B_def by simp
  qed
qed

lemma ilog_unique:
  assumes b: "1 < b" and lo: "of_nat b powi e \<le> x" and hi: "x < of_nat b powi (e + 1)"
  shows "ilog b x = e"
proof -
  define B :: rat where "B = of_nat b"
  have B1: "1 < B" using b by (simp add: B_def)
  have "0 < B powi e" using B1 by simp
  then have x: "0 < x" using lo unfolding B_def by simp
  note ib = ilog_bounds[OF x b, folded B_def]
  have "B powi e < B powi (ilog b x + 1)" using lo ib unfolding B_def by simp
  then have 1: "e < ilog b x + 1"
    using B1 by (metis not_less power_int_increasing less_imp_le)
  have "B powi ilog b x < B powi (e + 1)" using hi ib unfolding B_def by simp
  then have 2: "ilog b x < e + 1"
    using B1 by (metis not_less power_int_increasing less_imp_le)
  from 1 2 show ?thesis by simp
qed

lemma rhe_of_int: "round_half_even (of_int n) = n"
  by (simp add: round_half_even_def)

lemma rhe_cases:
  "round_half_even x = \<lfloor>x\<rfloor> \<and> x - of_int \<lfloor>x\<rfloor> \<le> 1 / 2 \<or>
   round_half_even x = \<lfloor>x\<rfloor> + 1 \<and> 1 / 2 \<le> x - of_int \<lfloor>x\<rfloor>"
  unfolding round_half_even_def Let_def by auto

lemma rhe_lower: "x - 1 / 2 \<le> of_int (round_half_even x)"
proof -
  have f: "of_int \<lfloor>x\<rfloor> \<le> x" "x < of_int \<lfloor>x\<rfloor> + 1" by linarith+
  from rhe_cases[of x] show ?thesis
  proof
    assume "round_half_even x = \<lfloor>x\<rfloor> \<and> x - of_int \<lfloor>x\<rfloor> \<le> 1 / 2"
    then show ?thesis by simp
  next
    assume "round_half_even x = \<lfloor>x\<rfloor> + 1 \<and> 1 / 2 \<le> x - of_int \<lfloor>x\<rfloor>"
    then have "of_int (round_half_even x) = of_int \<lfloor>x\<rfloor> + (1::rat)" by simp
    with f show ?thesis by linarith
  qed
qed

lemma rhe_upper: "of_int (round_half_even x) \<le> x + 1 / 2"
proof -
  have f: "of_int \<lfloor>x\<rfloor> \<le> x" "x < of_int \<lfloor>x\<rfloor> + 1" by linarith+
  from rhe_cases[of x] show ?thesis
  proof
    assume "round_half_even x = \<lfloor>x\<rfloor> \<and> x - of_int \<lfloor>x\<rfloor> \<le> 1 / 2"
    then have "of_int (round_half_even x) = (of_int \<lfloor>x\<rfloor> :: rat)" by simp
    with f show ?thesis by linarith
  next
    assume a: "round_half_even x = \<lfloor>x\<rfloor> + 1 \<and> 1 / 2 \<le> x - of_int \<lfloor>x\<rfloor>"
    then have "of_int (round_half_even x) = of_int \<lfloor>x\<rfloor> + (1::rat)" by simp
    with f a show ?thesis by linarith
  qed
qed

lemma rhe_le_int:
  assumes "x \<le> of_int n" shows "round_half_even x \<le> n"
proof (cases "x = of_int n")
  case True
  then show ?thesis by (simp add: rhe_of_int)
next
  case False
  with assms have "x < of_int n" by simp
  then have "\<lfloor>x\<rfloor> < n" by (simp add: floor_less_iff)
  with rhe_cases[of x] show ?thesis by auto
qed

lemma rhe_ge_int:
  assumes "of_int n \<le> x" shows "n \<le> round_half_even x"
proof -
  have "n \<le> \<lfloor>x\<rfloor>" using assms by (simp add: le_floor_iff)
  with rhe_cases[of x] show ?thesis by auto
qed

lemma rhe_near:
  assumes "\<bar>x - of_int n\<bar> < 1 / 2" shows "round_half_even x = n"
proof -
  have a: "of_int n - 1 / 2 < x" "x < of_int n + 1 / 2" using assms by linarith+
  have l: "x - 1 / 2 \<le> of_int (round_half_even x)" by (rule rhe_lower)
  have u: "of_int (round_half_even x) \<le> x + 1 / 2" by (rule rhe_upper)
  have "(of_int (round_half_even x) :: rat) < of_int n + 1" using a u by linarith
  then have "(of_int (round_half_even x) :: rat) < of_int (n + 1)" by simp
  then have 1: "round_half_even x < n + 1" by (simp only: of_int_less_iff)
  have "(of_int n :: rat) - 1 < of_int (round_half_even x)" using a l by linarith
  then have "(of_int (n - 1) :: rat) < of_int (round_half_even x)" by simp
  then have 2: "n - 1 < round_half_even x" by (simp only: of_int_less_iff)
  from 1 2 show ?thesis by simp
qed

lemma rhe_nonneg: "0 \<le> x \<Longrightarrow> 0 \<le> round_half_even x"
  using rhe_ge_int[of 0 x] by simp

lemma rhe_nonpos: "x \<le> 0 \<Longrightarrow> round_half_even x \<le> 0"
  using rhe_le_int[of x 0] by simp

lemma round_sig_at:
  assumes "1 < b" "of_nat b powi e \<le> \<bar>x\<bar>" "\<bar>x\<bar> < of_nat b powi (e + 1)"
  shows "round_sig b p None x =
         of_int (round_half_even (x / of_nat b powi (e - int p + 1))) * of_nat b powi (e - int p + 1)"
proof -
  have "0 < (of_nat b :: rat) powi e" using assms(1) by simp
  then have "x \<noteq> 0" using assms(2) by auto
  moreover have "ilog b \<bar>x\<bar> = e" using assms by (rule ilog_unique)
  ultimately show ?thesis by (simp add: round_sig_def Let_def)
qed

lemma dec_round_at:
  assumes "10 powi e \<le> \<bar>x\<bar>" "\<bar>x\<bar> < 10 powi (e + 1)"
  shows "dec_round x = of_int (round_half_even (x / 10 powi (e - 27))) * 10 powi (e - 27)"
proof -
  have "round_sig 10 28 None x =
        of_int (round_half_even (x / of_nat 10 powi (e - int 28 + 1))) * of_nat 10 powi (e - int 28 + 1)"
    by (rule round_sig_at) (use assms in simp_all)
  moreover have "e - int 28 + 1 = e - 27" by simp
  ultimately show ?thesis unfolding dec_round_def by simp
qed

lemma dec_round_zero: "dec_round 0 = 0"
  by (simp add: dec_round_def round_sig_def)

lemma dec_round_nonneg: "0 \<le> x \<Longrightarrow> 0 \<le> dec_round x"
  unfolding dec_round_def round_sig_def Let_def
  by (auto intro!: mult_nonneg_nonneg rhe_nonneg divide_nonneg_pos)

lemma dec_round_nonpos: "x \<le> 0 \<Longrightarrow> dec_round x \<le> 0"
  unfolding dec_round_def round_sig_def Let_def
  by (auto intro!: mult_nonpos_nonneg rhe_nonpos simp: divide_nonpos_pos)

lemma pow10_split: "(10::rat) powi (e - 27) * 10 ^ 27 = 10 powi e"
proof -
  have "(10::rat) powi (e - 27) * 10 powi 27 = 10 powi (e - 27 + 27)"
    by (subst power_int_add) simp_all
  then show ?thesis by simp
qed

lemma dec_round_decade:
  assumes "10 powi e \<le> y" "y < 10 powi (e + 1)"
  shows "10 powi e \<le> dec_round y" "dec_round y \<le> 10 powi (e + 1)"
    "\<bar>dec_round y - y\<bar> \<le> 10 powi (e - 27) / 2"
proof -
  define q :: rat where "q = 10 powi (e - 27)"
  have q: "0 < q" by (simp add: q_def)
  have "0 < (10::rat) powi e" by simp
  then have y: "0 < y" using assms(1) by linarith
  have dr: "dec_round y = of_int (round_half_even (y / q)) * q"
    unfolding q_def by (rule dec_round_at) (use assms y in simp_all)
  have qe: "q * 10 ^ 27 = 10 powi e" unfolding q_def by (rule pow10_split)
  have qe1: "q * 10 ^ 28 = 10 powi (e + 1)"
  proof -
    have "q * 10 ^ 28 = (q * 10 ^ 27) * 10" by simp
    also have "\<dots> = 10 powi e * 10" by (simp only: qe)
    also have "\<dots> = 10 powi (e + 1)" by (simp add: power_int_add)
    finally show ?thesis .
  qed
  have "of_int (10 ^ 27) \<le> y / q"
    using assms(1) q qe by (simp add: pos_le_divide_eq mult.commute)
  then have "(10 ^ 27 :: int) \<le> round_half_even (y / q)" by (rule rhe_ge_int)
  then have "(of_int (10 ^ 27) :: rat) \<le> of_int (round_half_even (y / q))"
    by (simp only: of_int_le_iff)
  then have "of_int (10 ^ 27) * q \<le> of_int (round_half_even (y / q)) * q"
    using q by (simp only: mult_le_cancel_right_pos)
  then show "10 powi e \<le> dec_round y" using qe by (simp add: dr mult.commute)
  have "y / q \<le> of_int (10 ^ 28)"
    using assms(2) q qe1 by (simp add: pos_divide_le_eq mult.commute)
  then have "round_half_even (y / q) \<le> (10 ^ 28 :: int)" by (rule rhe_le_int)
  then have "(of_int (round_half_even (y / q)) :: rat) \<le> of_int (10 ^ 28)"
    by (simp only: of_int_le_iff)
  then have "of_int (round_half_even (y / q)) * q \<le> of_int (10 ^ 28) * q"
    using q by (simp only: mult_le_cancel_right_pos)
  then show "dec_round y \<le> 10 powi (e + 1)" using qe1 by (simp add: dr mult.commute)
  have "\<bar>of_int (round_half_even (y / q)) - y / q\<bar> \<le> 1 / 2"
    using rhe_lower[of "y / q"] rhe_upper[of "y / q"] by linarith
  then have "\<bar>of_int (round_half_even (y / q)) - y / q\<bar> * q \<le> 1 / 2 * q"
    using q by (simp only: mult_le_cancel_right_pos)
  moreover have "\<bar>of_int (round_half_even (y / q)) - y / q\<bar> * q = \<bar>dec_round y - y\<bar>"
  proof -
    have "\<bar>of_int (round_half_even (y / q)) - y / q\<bar> * q
          = \<bar>(of_int (round_half_even (y / q)) - y / q) * q\<bar>"
      using q by (simp add: abs_mult)
    also have "(of_int (round_half_even (y / q)) - y / q) * q = dec_round y - y"
      using q by (simp add: dr algebra_simps)
    finally show ?thesis .
  qed
  ultimately have "\<bar>dec_round y - y\<bar> \<le> 1 / 2 * q" by (simp only:)
  then show "\<bar>dec_round y - y\<bar> \<le> 10 powi (e - 27) / 2" by (simp add: q_def)
qed

lemma dec_round_ge_one:
  assumes "1 \<le> y" shows "1 \<le> dec_round y"
proof -
  have y: "0 < y" using assms by simp
  define e where "e = ilog 10 y"
  have b: "10 powi e \<le> y" "y < 10 powi (e + 1)"
    using ilog_bounds[of y 10] y by (simp_all add: e_def)
  have "(10::rat) powi 0 < 10 powi (e + 1)" using assms b by simp
  then have "0 < e + 1" by (metis not_less power_int_increasing less_imp_le one_less_numeral_iff semiring_norm(76) less_eq_real_def)
  then have "0 \<le> e" by simp
  then have "(1::rat) \<le> 10 powi e" by simp
  with dec_round_decade(1)[OF b] show ?thesis by linarith
qed

lemma dec_round_progress:
  assumes a: "0 \<le> a" and s: "1 / 10 ^ 28 \<le> s" and lt: "a + s < 1"
  shows "a + s / 2 \<le> dec_round (a + s)"
proof -
  define y where "y = a + s"
  have "(0::rat) < 1 / 10 ^ 28" by simp
  with s have "0 < s" by linarith
  with a have y: "0 < y" unfolding y_def by linarith
  define e where "e = ilog 10 y"
  have b: "10 powi e \<le> y" "y < 10 powi (e + 1)"
    using ilog_bounds[of y 10] y by (simp_all add: e_def)
  have "(10::rat) powi e < 10 powi 0" using lt b unfolding y_def by simp
  then have "e < 0" by (metis not_less power_int_increasing less_imp_le one_less_numeral_iff semiring_norm(76))
  then have "e - 27 \<le> - 28" by simp
  then have "(10::rat) powi (e - 27) \<le> 10 powi (- 28)"
    by (intro power_int_increasing) simp_all
  also have "(10::rat) powi (- 28) = 1 / 10 ^ 28"
    by (simp add: power_int_def field_simps)
  finally have q: "(10::rat) powi (e - 27) \<le> s" using s by linarith
  have "\<bar>dec_round y - y\<bar> \<le> 10 powi (e - 27) / 2" by (rule dec_round_decade(3)[OF b])
  then have "y - s / 2 \<le> dec_round y" using q by linarith
  then show ?thesis unfolding y_def by simp
qed

lemma dec_round_le_pow:
  assumes y: "0 < y" and le: "y < 10 powi k + 10 powi (k - 27) / 2"
  shows "dec_round y \<le> 10 powi k"
proof (cases "y < 10 powi k")
  case True
  define e where "e = ilog 10 y"
  have b: "10 powi e \<le> y" "y < 10 powi (e + 1)"
    using ilog_bounds[of y 10] y by (simp_all add: e_def)
  have "(10::rat) powi e < 10 powi k" using True b by simp
  then have "e < k" by (metis not_less power_int_increasing less_imp_le one_less_numeral_iff semiring_norm(76))
  then have "(10::rat) powi (e + 1) \<le> 10 powi k"
    by (intro power_int_increasing) simp_all
  with dec_round_decade(2)[OF b] show ?thesis by linarith
next
  case False
  then have lo: "10 powi k \<le> y" by simp
  have "(10::rat) powi (k - 27) \<le> 10 powi k" by (intro power_int_increasing) simp_all
  moreover have "(0::rat) < 10 powi k" by simp
  moreover have "(10::rat) powi (k + 1) = 10 powi k * 10" by (simp add: power_int_add)
  ultimately have hi: "y < 10 powi (k + 1)" using le by linarith
  define q :: rat where "q = 10 powi (k - 27)"
  have q: "0 < q" by (simp add: q_def)
  have qe: "q * 10 ^ 27 = 10 powi k" unfolding q_def by (rule pow10_split)
  have dr: "dec_round y = of_int (round_half_even (y / q)) * q"
    unfolding q_def by (rule dec_round_at) (use lo hi y in simp_all)
  have "y < q * 10 ^ 27 + q / 2" using le qe by (simp add: q_def)
  then have "y < (10 ^ 27 + 1 / 2) * q" by (simp add: algebra_simps)
  then have 1: "y / q < 10 ^ 27 + 1 / 2" using q by (simp add: pos_divide_less_eq)
  have "10 ^ 27 * q \<le> y" using lo qe by (simp add: mult.commute)
  then have 2: "10 ^ 27 \<le> y / q" using q by (simp add: pos_le_divide_eq)
  have "\<bar>y / q - of_int (10 ^ 27)\<bar> < 1 / 2" using 1 2 by simp
  then have "round_half_even (y / q) = 10 ^ 27" by (rule rhe_near)
  then show ?thesis using qe by (simp add: dr mult.commute)
qed

lemma fl_round_zero: "fl_round 0 = Fin 0"
  by (simp add: fl_round_def round_sig_def)

lemma pow2_big: "(2::rat) powi (e + 1) \<le> 2 ^ 1023" if "e \<le> 1022"
proof -
  have "(2::rat) powi (e + 1) \<le> 2 powi 1023"
    by (intro power_int_increasing) (use that in simp_all)
  then show ?thesis by simp
qed

lemma fl_round_at:
  assumes x: "0 < x" and lo: "2 powi e \<le> x" and hi: "x < 2 powi (e + 1)"
    and e: "- 1022 \<le> e" "e \<le> 1022"
  shows "fl_round x = Fin (of_int (round_half_even (x / 2 powi (e - 52))) * 2 powi (e - 52))"
proof -
  define q :: rat where "q = 2 powi (e - 52)"
  have q: "0 < q" by (simp add: q_def)
  have il: "ilog 2 \<bar>x\<bar> = e" by (rule ilog_unique) (use x lo hi in simp_all)
  have v: "round_sig 2 53 (Some (- 1022)) x = of_int (round_half_even (x / q)) * q"
    using x e il by (simp add: round_sig_def Let_def q_def max_def)
  have qe1: "q * 2 ^ 53 = 2 powi (e + 1)"
  proof -
    have "q * 2 ^ 53 = q * 2 powi 53" by simp
    also have "\<dots> = 2 powi (e - 52 + 53)"
      unfolding q_def by (subst power_int_add) simp_all
    also have "e - 52 + 53 = e + 1" by simp
    finally show ?thesis .
  qed
  have "x / q \<le> of_int (2 ^ 53)"
    using hi q qe1 by (simp add: pos_divide_le_eq mult.commute)
  then have "round_half_even (x / q) \<le> (2 ^ 53 :: int)" by (rule rhe_le_int)
  then have "(of_int (round_half_even (x / q)) :: rat) \<le> of_int (2 ^ 53)"
    by (simp only: of_int_le_iff)
  then have "of_int (round_half_even (x / q)) * q \<le> of_int (2 ^ 53) * q"
    using q by (simp only: mult_le_cancel_right_pos)
  then have "of_int (round_half_even (x / q)) * q \<le> 2 powi (e + 1)"
    using qe1 by (simp add: mult.commute)
  with pow2_big[OF e(2)] have up: "of_int (round_half_even (x / q)) * q \<le> 2 ^ 1023"
    by linarith
  have "0 \<le> x / q" using x q by simp
  then have "0 \<le> round_half_even (x / q)" by (rule rhe_nonneg)
  then have dn: "0 \<le> of_int (round_half_even (x / q)) * q" using q by simp
  have "(2::rat) ^ 1023 < 2 ^ 1024" by simp
  with up dn have "\<not> 2 ^ 1024 \<le> of_int (round_half_even (x / q)) * q"
    "\<not> of_int (round_half_even (x / q)) * q \<le> - (2 ^ 1024)" by linarith+
  then show ?thesis
    unfolding fl_round_def v Let_def q_def[symmetric] by (simp only: if_False)
qed

lemma fl_round_unit:
  assumes "0 \<le> x" "x \<le> 1"
  shows "\<exists>v. fl_round x = Fin v \<and> 0 \<le> v \<and> v \<le> 1"
proof (cases "x = 0")
  case True
  then show ?thesis by (simp add: fl_round_zero)
next
  case False
  with assms have x: "0 < x" by simp
  define e0 where "e0 = ilog 2 x"
  have b: "2 powi e0 \<le> x" using ilog_bounds[of x 2] x by (simp add: e0_def)
  have "(2::rat) powi e0 < 2 powi 1" using b assms(2) by simp
  then have "e0 < 1" by (metis not_less power_int_increasing less_imp_le one_less_numeral_iff semiring_norm(76))
  define e where "e = max e0 (- 1022)"
  have e: "e \<le> 0" using \<open>e0 < 1\<close> by (simp add: e_def)
  define q :: rat where "q = 2 powi (e - 52)"
  have q: "0 < q" by (simp add: q_def)
  define v where "v = of_int (round_half_even (x / q)) * q"
  have rs: "round_sig 2 53 (Some (- 1022)) x = v"
    using x by (simp add: round_sig_def Let_def v_def q_def e_def e0_def)
  define N :: int where "N = 2 ^ nat (52 - e)"
  have "q * 2 powi (52 - e) = 2 powi (e - 52 + (52 - e))"
    unfolding q_def by (subst power_int_add) simp_all
  then have "q * 2 powi (52 - e) = 1" by simp
  moreover have "(2::rat) powi (52 - e) = of_int N"
    using e by (simp add: N_def power_int_def)
  ultimately have qN: "q * of_int N = 1" by simp
  have "x / q \<le> of_int N"
  proof -
    have "x \<le> of_int N * q" using qN assms(2) by (simp add: mult.commute)
    then show ?thesis using q by (simp add: pos_divide_le_eq)
  qed
  then have "round_half_even (x / q) \<le> N" by (rule rhe_le_int)
  then have "(of_int (round_half_even (x / q)) :: rat) \<le> of_int N"
    by (simp only: of_int_le_iff)
  then have "of_int (round_half_even (x / q)) * q \<le> of_int N * q"
    using q by (simp only: mult_le_cancel_right_pos)
  then have v1: "v \<le> 1" using qN by (simp add: v_def mult.commute)
  have "0 \<le> x / q" using x q by simp
  then have "0 \<le> round_half_even (x / q)" by (rule rhe_nonneg)
  then have v0: "0 \<le> v" using q by (simp add: v_def)
  have "(1::rat) < 2 ^ 1024" by (rule one_less_power) simp_all
  with v0 v1 have "\<not> 2 ^ 1024 \<le> v" "\<not> v \<le> - (2 ^ 1024)" by linarith+
  then have "fl_round x = Fin v" unfolding fl_round_def rs Let_def by (simp only: if_False)
  with v0 v1 show ?thesis by blast
qed

lemma drange_for_Fin:
  "drange_for f (DFin x) (DFin y) (Fin s) =
     (if x < y then
        (case f (fl_round x) of
           Inl e \<Rightarrow> Some (Inl e)
         | Inr p \<Rightarrow>
             Option.bind (drange_for f (DFin (dec_round (x + s))) (DFin y) (Fin s))
               (\<lambda>r. Some (case r of Inl e \<Rightarrow> Inl e | Inr ps \<Rightarrow> Inr (p # ps))))
      else Some (Inr []))"
  by (subst drange_for.simps) (simp split: sum.splits)

lemma acc_shift: "acc (dec_round (x + s)) s i = acc x s (Suc i)"
  by (induction i) simp_all

lemma acc_nonneg: "0 \<le> x \<Longrightarrow> 0 \<le> s \<Longrightarrow> 0 \<le> acc x s i"
  by (induction i) (simp_all add: dec_round_nonneg)

lemma acc_nonpos: "x \<le> 0 \<Longrightarrow> s \<le> 0 \<Longrightarrow> acc x s i \<le> 0"
  by (induction i) (simp_all add: dec_round_nonpos)

lemma drange_for_acc:
  assumes "\<forall>i<n. acc x s i < y" "y \<le> acc x s n"
    and "\<forall>i<n. f (fl_round (acc x s i)) = Inr (g i)"
  shows "drange_for f (DFin x) (DFin y) (Fin s) = Some (Inr (map g [0..<n]))"
  using assms
proof (induction n arbitrary: x g)
  case 0
  then show ?case by (subst drange_for_Fin) simp
next
  case (Suc n)
  have x: "x < y" using Suc.prems(1) by force
  have f0: "f (fl_round x) = Inr (g 0)" using Suc.prems(3) by force
  have "drange_for f (DFin (dec_round (x + s))) (DFin y) (Fin s)
        = Some (Inr (map (g \<circ> Suc) [0..<n]))"
  proof (rule Suc.IH)
    show "\<forall>i<n. acc (dec_round (x + s)) s i < y"
      using Suc.prems(1) by (simp add: acc_shift del: acc.simps)
    show "y \<le> acc (dec_round (x + s)) s n"
      using Suc.prems(2) by (simp add: acc_shift del: acc.simps)
    show "\<forall>i<n. f (fl_round (acc (dec_round (x + s)) s i)) = Inr ((g \<circ> Suc) i)"
      using Suc.prems(3) by (simp add: acc_shift del: acc.simps)
  qed
  moreover have "g 0 # map (g \<circ> Suc) [0..<n] = map g [0..<Suc n]"
    by (simp add: map_Suc_upt[symmetric] upt_conv_Cons del: upt_Suc)
  ultimately show ?case
    using x f0 by (subst drange_for_Fin) simp
qed

lemma drange_for_diverges:
  assumes inv: "\<And>x. I x \<Longrightarrow> x < y \<and> (\<exists>p. f (fl_round x) = Inr p) \<and> I (dec_round (x + s))"
    and start: "I x0"
  shows "drange_for f (DFin x0) (DFin y) (Fin s) = None"
proof -
  have "\<not> I x" if "drange_for f (DFin x) (DFin y) (Fin s) = Some r" for x r
  proof -
    define P where "P = (\<lambda>f' a b c (r :: error + 'a list).
        \<forall>x. f' = f \<and> a = DFin x \<and> b = DFin y \<and> c = Fin s \<longrightarrow> \<not> I x)"
    have "P f (DFin x) (DFin y) (Fin s) r"
    proof (rule drange_for.raw_induct[where P = P and xa = "(((f, DFin x), DFin y), Fin s)" and ya = r, simplified])
      show "drange_for f (DFin x) (DFin y) (Fin s) = Some r" by (rule that)
    next
      fix dr f' a b c r'
      assume IH: "\<And>f a b c r. dr f a b c = Some r \<Longrightarrow> P f a b c r"
      assume eq: "(case dec_less a b of Inl e \<Rightarrow> Some (Inl e)
                | Inr t \<Rightarrow> if t then case f' (float_of_dec a) of Inl e \<Rightarrow> Some (Inl e)
                    | Inr p \<Rightarrow> case dec_add a (Decimal c) of Inl e \<Rightarrow> Some (Inl e)
                       | Inr x' \<Rightarrow> Option.bind (dr f' x' b c)
                            (\<lambda>r. Some (case r of Inl e \<Rightarrow> Inl e | Inr ps \<Rightarrow> Inr (p # ps)))
                  else Some (Inr [])) = Some r'"
      show "P f' a b c r'"
        unfolding P_def
      proof (intro allI impI notI)
        fix z
        assume h: "f' = f \<and> a = DFin z \<and> b = DFin y \<and> c = Fin s" and Iz: "I z"
        from inv[OF Iz] obtain p where zy: "z < y" and fp: "f (fl_round z) = Inr p"
          and I': "I (dec_round (z + s))" by blast
        from eq h zy fp obtain r2 where "dr f (DFin (dec_round (z + s))) (DFin y) (Fin s) = Some r2"
          by (auto simp: bind_eq_Some_conv)
        from IH[OF this] have "\<not> I (dec_round (z + s))" unfolding P_def by blast
        with I' show False by contradiction
      qed
    qed
    then show ?thesis unfolding P_def by blast
  qed
  with start show ?thesis by (cases "drange_for f (DFin x0) (DFin y) (Fin s)") auto
qed

lemma acc_lower:
  assumes s: "1 / 10 ^ 28 \<le> s"
  shows "min 1 (of_nat i * s / 2) \<le> acc 0 s i"
proof (induction i)
  case 0
  show ?case by simp
next
  case (Suc i)
  have "(0::rat) < 1 / 10 ^ 28" by simp
  with s have s0: "0 < s" by linarith
  define a where "a = acc 0 s i"
  have a0: "0 \<le> a" unfolding a_def by (rule acc_nonneg) (use s0 in simp_all)
  have IH: "min 1 (of_nat i * s / 2) \<le> a" using Suc.IH by (simp add: a_def)
  have step: "acc 0 s (Suc i) = dec_round (a + s)" by (simp add: a_def)
  show ?case
  proof (cases "a + s < 1")
    case True
    then have "a < 1" using s0 by linarith
    with IH have "of_nat i * s / 2 \<le> a" by (simp add: min_def split: if_splits)
    moreover have "a + s / 2 \<le> dec_round (a + s)"
      by (rule dec_round_progress[OF a0 s True])
    moreover have "of_nat (Suc i) * s / 2 = of_nat i * s / 2 + s / 2"
      by (simp add: algebra_simps)
    ultimately have "of_nat (Suc i) * s / 2 \<le> dec_round (a + s)" by linarith
    then show ?thesis unfolding step by (simp add: min_def)
  next
    case False
    then have "1 \<le> dec_round (a + s)" by (intro dec_round_ge_one) simp
    then show ?thesis unfolding step by (simp add: min_def)
  qed
qed

lemma acc_exit:
  assumes s: "1 / 10 ^ 28 \<le> s"
  shows "\<exists>n>0. (\<forall>i<n. 0 \<le> acc 0 s i \<and> acc 0 s i < 1) \<and> 1 \<le> acc 0 s n"
proof -
  have "(0::rat) < 1 / 10 ^ 28" by simp
  with s have s0: "0 < s" by linarith
  define m where "m = nat \<lceil>2 / s\<rceil>"
  have "2 / s \<le> of_int \<lceil>2 / s\<rceil>" by (rule le_of_int_ceiling)
  moreover have "0 \<le> \<lceil>2 / s\<rceil>"
  proof -
    have "0 \<le> 2 / s" using s0 by simp
    then have "(0::rat) \<le> of_int \<lceil>2 / s\<rceil>"
      using le_of_int_ceiling[of "2 / s"] by linarith
    then show ?thesis by (simp only: of_int_0_le_iff)
  qed
  ultimately have "2 / s \<le> of_nat m" unfolding m_def by simp
  then have "2 \<le> of_nat m * s" using s0 by (simp add: pos_divide_le_eq)
  then have "1 \<le> of_nat m * s / 2" by simp
  with acc_lower[OF s, of m] have ex: "1 \<le> acc 0 s m" by (simp add: min_def split: if_splits)
  define n where "n = (LEAST k. 1 \<le> acc 0 s k)"
  have n1: "1 \<le> acc 0 s n" unfolding n_def by (rule LeastI[of _ m]) (rule ex)
  have nl: "acc 0 s i < 1" if "i < n" for i
    using not_less_Least[of i "\<lambda>k. 1 \<le> acc 0 s k"] that unfolding n_def by simp
  have "n \<noteq> 0"
  proof
    assume "n = 0"
    with n1 show False by simp
  qed
  moreover have "0 \<le> acc 0 s i" for i by (rule acc_nonneg) (use s0 in simp_all)
  ultimately show ?thesis using n1 nl by (intro exI[of _ n]) simp
qed

lemma stall_small:
  assumes "0 \<le> x" "x \<le> 1 / 10 ^ 30"
  shows "0 \<le> dec_round (x + 1 / 2 ^ 200) \<and> dec_round (x + 1 / 2 ^ 200) \<le> 1 / 10 ^ 30"
proof -
  have p30: "(10::rat) powi (- 30) = 1 / 10 ^ 30" by (simp add: power_int_def field_simps)
  have p57: "(10::rat) powi (- 30 - 27) = 1 / 10 ^ 57" by (simp add: power_int_def field_simps)
  have small: "(1::rat) / 2 ^ 200 < 1 / 10 ^ 57 / 2" by simp
  have y: "0 < x + 1 / 2 ^ 200" using assms(1) by (simp add: add_nonneg_pos)
  have "x + 1 / 2 ^ 200 < 10 powi (- 30) + 10 powi (- 30 - 27) / 2"
    unfolding p30 p57 using assms(2) small by linarith
  with y have "dec_round (x + 1 / 2 ^ 200) \<le> 10 powi (- 30)" by (rule dec_round_le_pow)
  moreover have "0 \<le> dec_round (x + 1 / 2 ^ 200)" using y by (intro dec_round_nonneg) simp
  ultimately show ?thesis by (simp only: p30)
qed

lemma valid_arch: "valid_model arch"
  by (simp add: valid_model_def arch_def)

lemma valid_single_point: "valid_model single_point"
  by (simp add: valid_model_def single_point_def)

lemma sample_points_unfold:
  "sample_points c j =
     (case pointAtTime c (Fin 0) of
        Inl e \<Rightarrow> Some (Inl e)
      | Inr p \<Rightarrow>
          (case dec_add (DFin 0) (Decimal j) of
             Inl e \<Rightarrow> Some (Inl e)
           | Inr x' \<Rightarrow>
               Option.bind (drange_for (pointAtTime c) x' (DFin 1) j)
                 (\<lambda>r. Some (case r of Inl e \<Rightarrow> Inl e | Inr ps \<Rightarrow> Inr (p # ps)))))"
  unfolding sample_points_def
  by (subst drange_for.simps) (simp add: fl_round_zero)

lemma sample_points_hd:
  assumes "sample_points c j = Some (Inr ps)"
  shows "ps \<noteq> [] \<and> pointAtTime c (Fin 0) = Inr (hd ps)"
proof (cases "pointAtTime c (Fin 0)")
  case (Inl e)
  with assms show ?thesis by (simp add: sample_points_unfold)
next
  case p: (Inr p)
  show ?thesis
  proof (cases "dec_add (DFin 0) (Decimal j)")
    case (Inl e)
    with assms p show ?thesis by (simp add: sample_points_unfold)
  next
    case (Inr x')
    with assms p obtain r where
      "(case r of Inl e \<Rightarrow> Inl e | Inr qs \<Rightarrow> Inr (p # qs)) = (Inr ps :: error + point list)"
      by (auto simp: sample_points_unfold bind_eq_Some_conv)
    then have "\<exists>qs. ps = p # qs" by (cases r) auto
    with p show ?thesis by auto
  qed
qed

lemma sample_points_nonempty: "sample_points c j \<noteq> Some (Inr [])"
  using sample_points_hd[of c j "[]"] by auto

lemma sample_points_returns:
  assumes s: "1 / 10 ^ 28 \<le> s" and v: "valid_model c"
  shows "\<exists>ps. sample_points c (Fin s) = Some (Inr ps)"
proof -
  from acc_exit[OF s] obtain n where n: "0 < n"
    and b: "\<forall>i<n. 0 \<le> acc 0 s i \<and> acc 0 s i < 1" and e: "1 \<le> acc 0 s n" by blast
  define g where "g = (\<lambda>i. projr (pointAtTime c (fl_round (acc 0 s i))))"
  have "\<forall>i<n. pointAtTime c (fl_round (acc 0 s i)) = Inr (g i)"
  proof (intro allI impI)
    fix i assume "i < n"
    with b have "0 \<le> acc 0 s i" "acc 0 s i \<le> 1" by auto
    then obtain t where "fl_round (acc 0 s i) = Fin t" "0 \<le> t" "t \<le> 1"
      using fl_round_unit by blast
    with v obtain p where "pointAtTime c (fl_round (acc 0 s i)) = Inr p"
      unfolding valid_model_def by auto
    then show "pointAtTime c (fl_round (acc 0 s i)) = Inr (g i)" by (simp add: g_def)
  qed
  with b e have "drange_for (pointAtTime c) (DFin 0) (DFin 1) (Fin s) = Some (Inr (map g [0..<n]))"
    by (intro drange_for_acc) auto
  then show ?thesis unfolding sample_points_def by blast
qed

lemma sample_stalls:
  "sample_points arch (Fin (1 / 2 ^ 200)) = None"
  unfolding sample_points_def
proof (rule drange_for_diverges[where I = "\<lambda>x. 0 \<le> x \<and> x \<le> 1 / 10 ^ 30"])
  show "0 \<le> (0::rat) \<and> (0::rat) \<le> 1 / 10 ^ 30" by simp
next
  fix x :: rat
  assume I: "0 \<le> x \<and> x \<le> 1 / 10 ^ 30"
  have "(1::rat) / 10 ^ 30 < 1" by simp
  with I have x1: "x < 1" "x \<le> 1" by linarith+
  from I x1 obtain t where "fl_round x = Fin t" "0 \<le> t" "t \<le> 1"
    using fl_round_unit by blast
  then have "\<exists>p. pointAtTime arch (fl_round x) = Inr p"
    using valid_arch unfolding valid_model_def by auto
  moreover have "0 \<le> dec_round (x + 1 / 2 ^ 200) \<and> dec_round (x + 1 / 2 ^ 200) \<le> 1 / 10 ^ 30"
    using I by (intro stall_small) simp_all
  ultimately show "x < 1 \<and> (\<exists>p. pointAtTime arch (fl_round x) = Inr p) \<and>
      (0 \<le> dec_round (x + 1 / 2 ^ 200) \<and> dec_round (x + 1 / 2 ^ 200) \<le> 1 / 10 ^ 30)"
    using x1 by blast
qed

lemma sample_nonpositive:
  assumes s: "s \<le> 0" and tot: "\<forall>t. \<exists>p. pointAtTime c t = Inr p"
  shows "sample_points c (Fin s) = None"
  unfolding sample_points_def
proof (rule drange_for_diverges[where I = "\<lambda>x. x \<le> 0"])
  show "(0::rat) \<le> 0" by simp
next
  fix x :: rat
  assume "x \<le> 0"
  then have "x + s \<le> 0" using s by simp
  then have "dec_round (x + s) \<le> 0" by (rule dec_round_nonpos)
  with \<open>x \<le> 0\<close> tot show "x < 1 \<and> (\<exists>p. pointAtTime c (fl_round x) = Inr p) \<and> dec_round (x + s) \<le> 0"
    by auto
qed

lemma fl_round_exact:
  assumes "0 < x" "2 powi e \<le> x" "x < 2 powi (e + 1)" "- 1022 \<le> e" "e \<le> 1022"
    and "x / 2 powi (e - 52) = of_int m"
  shows "fl_round x = Fin x"
proof -
  have "fl_round x = Fin (of_int (round_half_even (x / 2 powi (e - 52))) * 2 powi (e - 52))"
    using assms(1-5) by (rule fl_round_at)
  also have "round_half_even (x / 2 powi (e - 52)) = m"
    by (simp only: assms(6) rhe_of_int)
  also have "of_int m * 2 powi (e - 52) = x"
    by (simp add: assms(6)[symmetric])
  finally show ?thesis .
qed

lemma fl_round_5: "fl_round 5 = Fin 5"
  by (rule fl_round_exact[where e = 2 and m = "5 * 2 ^ 50"]) (simp_all add: power_int_def power_divide)

lemma fl_round_20: "fl_round 20 = Fin 20"
  by (rule fl_round_exact[where e = 4 and m = "20 * 2 ^ 48"]) (simp_all add: power_int_def power_divide)

lemma fl_round_quarter: "fl_round (1 / 4) = Fin (1 / 4)"
  by (rule fl_round_exact[where e = "- 2" and m = "2 ^ 52"]) (simp_all add: power_int_def power_divide)

lemma fmul_one: "is_float l \<Longrightarrow> fmul l (Fin 1) = l"
  by (cases l) (simp_all add: is_float_def)

lemma zip_xy:
  "map (\<lambda>(x, y). [x, y]) (zip (map point_x ps) (map point_y ps)) = map (\<lambda>p. [point_x p, point_y p]) ps"
  by (induction ps) simp_all

lemma dec_round_eval:
  assumes "10 powi e \<le> \<bar>x\<bar>" "\<bar>x\<bar> < 10 powi (e + 1)"
    and "\<bar>x / 10 powi (e - 27) - of_int m\<bar> < 1 / 2"
  shows "dec_round x = of_int m * 10 powi (e - 27)"
  by (simp only: dec_round_at[OF assms(1,2)] rhe_near[OF assms(3)])

lemma fl_round_eval:
  assumes "0 < x" "2 powi e \<le> x" "x < 2 powi (e + 1)" "- 1022 \<le> e" "e \<le> 1022"
    and "\<bar>x / 2 powi (e - 52) - of_int m\<bar> < 1 / 2"
  shows "fl_round x = Fin (of_int m * 2 powi (e - 52))"
  by (simp only: fl_round_at[OF assms(1-5)] rhe_near[OF assms(6)])

lemma drange_for_nil:
  "y \<le> x \<Longrightarrow> drange_for f (DFin x) (DFin y) (Fin s) = Some (Inr [])"
  by (subst drange_for_Fin) simp

lemma drange_for_cons:
  assumes "x < y" "f (fl_round x) = Inr p"
    and "drange_for f (DFin (dec_round (x + s))) (DFin y) (Fin s) = Some (Inr ps)"
  shows "drange_for f (DFin x) (DFin y) (Fin s) = Some (Inr (p # ps))"
  using assms by (subst drange_for_Fin) simp

lemma drange_for_nonempty:
  assumes "x < y" "drange_for f (DFin x) (DFin y) (Fin s) = Some (Inr ps)"
  shows "ps \<noteq> []"
proof (cases "f (fl_round x)")
  case (Inl e)
  with assms show ?thesis by (simp add: drange_for_Fin)
next
  case (Inr p)
  with assms obtain r where
    "(case r of Inl e \<Rightarrow> Inl e | Inr qs \<Rightarrow> Inr (p # qs)) = (Inr ps :: error + 'a list)"
    by (auto simp: drange_for_Fin bind_eq_Some_conv)
  then show ?thesis by (cases r) auto
qed

lemma unit_valid:
  assumes "\<forall>t. 0 \<le> t \<and> t \<le> 1 \<longrightarrow> (\<exists>p. f (Fin t) = Inr p)" "0 \<le> x" "x < 1"
  shows "\<exists>p. f (fl_round x) = Inr p"
proof -
  from assms(2,3) obtain t where "fl_round x = Fin t" "0 \<le> t" "t \<le> 1"
    using fl_round_unit[of x] by auto
  with assms(1) show ?thesis by auto
qed

lemma last_step:
  assumes v: "\<forall>t. 0 \<le> t \<and> t \<le> 1 \<longrightarrow> (\<exists>p. f (Fin t) = Inr p)"
    and x: "0 \<le> x" "x < 1" and d: "dec_round (x + s) = x'" and x': "x' < 1"
  shows "map_option (map_sum id last) (drange_for f (DFin x) (DFin 1) (Fin s)) =
         map_option (map_sum id last) (drange_for f (DFin x') (DFin 1) (Fin s))"
proof -
  from unit_valid[OF v x] obtain p where p: "f (fl_round x) = Inr p" by blast
  show ?thesis
  proof (cases "drange_for f (DFin x') (DFin 1) (Fin s)")
    case None
    with p x d show ?thesis by (subst drange_for_Fin) simp
  next
    case (Some r)
    show ?thesis
    proof (cases r)
      case (Inl e)
      with Some p x d show ?thesis by (subst drange_for_Fin) simp
    next
      case (Inr ps)
      with Some x' have "ps \<noteq> []" by (auto dest: drange_for_nonempty)
      with Inr Some p x d show ?thesis by (subst drange_for_Fin) simp
    qed
  qed
qed

lemma last_final:
  assumes "x < 1" "f (fl_round x) = Inr p" "1 \<le> dec_round (x + s)"
  shows "map_option (map_sum id last) (drange_for f (DFin x) (DFin 1) (Fin s)) = Some (Inr p)"
  using assms by (subst drange_for_Fin) (simp add: drange_for_nil)

lemma fifteenth_steps:
  fixes s :: rat
  defines "s \<equiv> 4803839602528529 / 2 ^ 56"
  shows
    "dec_round (0 + s) = 6666666666666666574148081281 / 10 ^ 29"
    "dec_round (6666666666666666574148081281 / 10 ^ 29 + s) = 1333333333333333314829616256 / 10 ^ 28"
    "dec_round (1333333333333333314829616256 / 10 ^ 28 + s) = 1999999999999999972244424384 / 10 ^ 28"
    "dec_round (1999999999999999972244424384 / 10 ^ 28 + s) = 2666666666666666629659232512 / 10 ^ 28"
    "dec_round (2666666666666666629659232512 / 10 ^ 28 + s) = 3333333333333333287074040640 / 10 ^ 28"
    "dec_round (3333333333333333287074040640 / 10 ^ 28 + s) = 3999999999999999944488848768 / 10 ^ 28"
    "dec_round (3999999999999999944488848768 / 10 ^ 28 + s) = 4666666666666666601903656896 / 10 ^ 28"
    "dec_round (4666666666666666601903656896 / 10 ^ 28 + s) = 5333333333333333259318465024 / 10 ^ 28"
    "dec_round (5333333333333333259318465024 / 10 ^ 28 + s) = 5999999999999999916733273152 / 10 ^ 28"
    "dec_round (5999999999999999916733273152 / 10 ^ 28 + s) = 6666666666666666574148081280 / 10 ^ 28"
    "dec_round (6666666666666666574148081280 / 10 ^ 28 + s) = 7333333333333333231562889408 / 10 ^ 28"
    "dec_round (7333333333333333231562889408 / 10 ^ 28 + s) = 7999999999999999888977697536 / 10 ^ 28"
    "dec_round (7999999999999999888977697536 / 10 ^ 28 + s) = 8666666666666666546392505664 / 10 ^ 28"
    "dec_round (8666666666666666546392505664 / 10 ^ 28 + s) = 9333333333333333203807313792 / 10 ^ 28"
    "dec_round (9333333333333333203807313792 / 10 ^ 28 + s) = 9999999999999999861222121920 / 10 ^ 28"
    "dec_round (9999999999999999861222121920 / 10 ^ 28 + s) = 1066666666666666651863693005 / 10 ^ 27"
  unfolding s_def
  subgoal by (subst dec_round_eval[where e = "- 2" and m = 6666666666666666574148081281]) (simp_all add: power_int_def power_divide)
  subgoal by (subst dec_round_eval[where e = "- 1" and m = 1333333333333333314829616256]) (simp_all add: power_int_def power_divide)
  subgoal by (subst dec_round_eval[where e = "- 1" and m = 1999999999999999972244424384]) (simp_all add: power_int_def power_divide)
  subgoal by (subst dec_round_eval[where e = "- 1" and m = 2666666666666666629659232512]) (simp_all add: power_int_def power_divide)
  subgoal by (subst dec_round_eval[where e = "- 1" and m = 3333333333333333287074040640]) (simp_all add: power_int_def power_divide)
  subgoal by (subst dec_round_eval[where e = "- 1" and m = 3999999999999999944488848768]) (simp_all add: power_int_def power_divide)
  subgoal by (subst dec_round_eval[where e = "- 1" and m = 4666666666666666601903656896]) (simp_all add: power_int_def power_divide)
  subgoal by (subst dec_round_eval[where e = "- 1" and m = 5333333333333333259318465024]) (simp_all add: power_int_def power_divide)
  subgoal by (subst dec_round_eval[where e = "- 1" and m = 5999999999999999916733273152]) (simp_all add: power_int_def power_divide)
  subgoal by (subst dec_round_eval[where e = "- 1" and m = 6666666666666666574148081280]) (simp_all add: power_int_def power_divide)
  subgoal by (subst dec_round_eval[where e = "- 1" and m = 7333333333333333231562889408]) (simp_all add: power_int_def power_divide)
  subgoal by (subst dec_round_eval[where e = "- 1" and m = 7999999999999999888977697536]) (simp_all add: power_int_def power_divide)
  subgoal by (subst dec_round_eval[where e = "- 1" and m = 8666666666666666546392505664]) (simp_all add: power_int_def power_divide)
  subgoal by (subst dec_round_eval[where e = "- 1" and m = 9333333333333333203807313792]) (simp_all add: power_int_def power_divide)
  subgoal by (subst dec_round_eval[where e = "- 1" and m = 9999999999999999861222121920]) (simp_all add: power_int_def power_divide)
  subgoal by (subst dec_round_eval[where e = "0" and m = 1066666666666666651863693005]) (simp_all add: power_int_def power_divide)
  done

lemma fl_round_near_one: "fl_round (9999999999999999861222121920 / 10 ^ 28) = Fin 1"
  by (subst fl_round_eval[where e = "- 1" and m = "2 ^ 53"])
     (simp_all add: power_int_def power_divide)

lemma fl_round_fifteenth: "fl_round (1 / 15) = Fin (4803839602528529 / 2 ^ 56)"
  by (subst fl_round_eval[where e = "- 4" and m = 4803839602528529])
     (simp_all add: power_int_def power_divide)

lemma fifteenth_last:
  assumes v: "\<forall>t. 0 \<le> t \<and> t \<le> 1 \<longrightarrow> (\<exists>p. f (Fin t) = Inr p)"
  shows "map_option (map_sum id last) (drange_for f (DFin (0)) (DFin 1) (Fin (4803839602528529 / 2 ^ 56))) = Some (f (Fin 1))"
proof -
  from v[rule_format, of 1] obtain p where p: "f (Fin 1) = Inr p" by auto
  have "map_option (map_sum id last) (drange_for f (DFin (0)) (DFin 1) (Fin (4803839602528529 / 2 ^ 56))) =
      map_option (map_sum id last) (drange_for f (DFin (6666666666666666574148081281 / 10 ^ 29)) (DFin 1) (Fin (4803839602528529 / 2 ^ 56)))"
    by (rule last_step[OF v _ _ fifteenth_steps(1)]) simp_all
  also have "\<dots> =
      map_option (map_sum id last) (drange_for f (DFin (1333333333333333314829616256 / 10 ^ 28)) (DFin 1) (Fin (4803839602528529 / 2 ^ 56)))"
    by (rule last_step[OF v _ _ fifteenth_steps(2)]) simp_all
  also have "\<dots> =
      map_option (map_sum id last) (drange_for f (DFin (1999999999999999972244424384 / 10 ^ 28)) (DFin 1) (Fin (4803839602528529 / 2 ^ 56)))"
    by (rule last_step[OF v _ _ fifteenth_steps(3)]) simp_all
  also have "\<dots> =
      map_option (map_sum id last) (drange_for f (DFin (2666666666666666629659232512 / 10 ^ 28)) (DFin 1) (Fin (4803839602528529 / 2 ^ 56)))"
    by (rule last_step[OF v _ _ fifteenth_steps(4)]) simp_all
  also have "\<dots> =
      map_option (map_sum id last) (drange_for f (DFin (3333333333333333287074040640 / 10 ^ 28)) (DFin 1) (Fin (4803839602528529 / 2 ^ 56)))"
    by (rule last_step[OF v _ _ fifteenth_steps(5)]) simp_all
  also have "\<dots> =
      map_option (map_sum id last) (drange_for f (DFin (3999999999999999944488848768 / 10 ^ 28)) (DFin 1) (Fin (4803839602528529 / 2 ^ 56)))"
    by (rule last_step[OF v _ _ fifteenth_steps(6)]) simp_all
  also have "\<dots> =
      map_option (map_sum id last) (drange_for f (DFin (4666666666666666601903656896 / 10 ^ 28)) (DFin 1) (Fin (4803839602528529 / 2 ^ 56)))"
    by (rule last_step[OF v _ _ fifteenth_steps(7)]) simp_all
  also have "\<dots> =
      map_option (map_sum id last) (drange_for f (DFin (5333333333333333259318465024 / 10 ^ 28)) (DFin 1) (Fin (4803839602528529 / 2 ^ 56)))"
    by (rule last_step[OF v _ _ fifteenth_steps(8)]) simp_all
  also have "\<dots> =
      map_option (map_sum id last) (drange_for f (DFin (5999999999999999916733273152 / 10 ^ 28)) (DFin 1) (Fin (4803839602528529 / 2 ^ 56)))"
    by (rule last_step[OF v _ _ fifteenth_steps(9)]) simp_all
  also have "\<dots> =
      map_option (map_sum id last) (drange_for f (DFin (6666666666666666574148081280 / 10 ^ 28)) (DFin 1) (Fin (4803839602528529 / 2 ^ 56)))"
    by (rule last_step[OF v _ _ fifteenth_steps(10)]) simp_all
  also have "\<dots> =
      map_option (map_sum id last) (drange_for f (DFin (7333333333333333231562889408 / 10 ^ 28)) (DFin 1) (Fin (4803839602528529 / 2 ^ 56)))"
    by (rule last_step[OF v _ _ fifteenth_steps(11)]) simp_all
  also have "\<dots> =
      map_option (map_sum id last) (drange_for f (DFin (7999999999999999888977697536 / 10 ^ 28)) (DFin 1) (Fin (4803839602528529 / 2 ^ 56)))"
    by (rule last_step[OF v _ _ fifteenth_steps(12)]) simp_all
  also have "\<dots> =
      map_option (map_sum id last) (drange_for f (DFin (8666666666666666546392505664 / 10 ^ 28)) (DFin 1) (Fin (4803839602528529 / 2 ^ 56)))"
    by (rule last_step[OF v _ _ fifteenth_steps(13)]) simp_all
  also have "\<dots> =
      map_option (map_sum id last) (drange_for f (DFin (9333333333333333203807313792 / 10 ^ 28)) (DFin 1) (Fin (4803839602528529 / 2 ^ 56)))"
    by (rule last_step[OF v _ _ fifteenth_steps(14)]) simp_all
  also have "\<dots> =
      map_option (map_sum id last) (drange_for f (DFin (9999999999999999861222121920 / 10 ^ 28)) (DFin 1) (Fin (4803839602528529 / 2 ^ 56)))"
    by (rule last_step[OF v _ _ fifteenth_steps(15)]) simp_all
  also have "\<dots> = Some (Inr p)"
  proof (rule last_final)
    show "(9999999999999999861222121920 / 10 ^ 28 :: rat) < 1" by simp
    show "f (fl_round (9999999999999999861222121920 / 10 ^ 28)) = Inr p"
      by (simp only: fl_round_near_one p)
    show "1 \<le> dec_round (9999999999999999861222121920 / 10 ^ 28 + 4803839602528529 / 2 ^ 56)"
      by (simp only: fifteenth_steps(16)) simp
  qed
  finally show ?thesis by (simp add: p)
qed

lemma rhe_tie:
  assumes "x = of_int n + 1 / 2"
  shows "round_half_even x = (if even n then n else n + 1)"
proof -
  have "\<lfloor>x\<rfloor> = n" unfolding assms by (rule floor_unique) simp_all
  then show ?thesis unfolding round_half_even_def Let_def by (simp add: assms)
qed

lemma fl_round_half: "fl_round (1 / 2) = Fin (1 / 2)"
  by (rule fl_round_exact[where e = "- 1" and m = "2 ^ 52"]) (simp_all add: power_int_def power_divide)

lemma fl_round_three_quarters: "fl_round (3 / 4) = Fin (3 / 4)"
  by (rule fl_round_exact[where e = "- 1" and m = "3 * 2 ^ 51"]) (simp_all add: power_int_def power_divide)

lemma fl_round_10: "fl_round 10 = Fin 10"
  by (rule fl_round_exact[where e = 3 and m = "10 * 2 ^ 49"]) (simp_all add: power_int_def power_divide)

lemma fl_round_25_16: "fl_round (25 / 16) = Fin (25 / 16)"
  by (rule fl_round_exact[where e = 0 and m = "25 * 2 ^ 48"]) (simp_all add: power_int_def power_divide)

lemma fl_round_45_8: "fl_round (45 / 8) = Fin (45 / 8)"
  by (rule fl_round_exact[where e = 2 and m = "45 * 2 ^ 47"]) (simp_all add: power_int_def power_divide)

lemma fl_round_15_2: "fl_round (15 / 2) = Fin (15 / 2)"
  by (rule fl_round_exact[where e = 2 and m = "15 * 2 ^ 49"]) (simp_all add: power_int_def power_divide)

lemma fl_round_135_16: "fl_round (135 / 16) = Fin (135 / 16)"
  by (rule fl_round_exact[where e = 3 and m = "135 * 2 ^ 45"]) (simp_all add: power_int_def power_divide)

lemma dec_round_quarters:
  "dec_round (1 / 4) = 1 / 4" "dec_round (1 / 2) = 1 / 2" "dec_round (3 / 4) = 3 / 4"
  "dec_round 1 = 1" "dec_round (3 / 2) = 3 / 2"
  subgoal by (subst dec_round_eval[where e = "- 1" and m = "25 * 10 ^ 26"]) (simp_all add: power_int_def power_divide)
  subgoal by (subst dec_round_eval[where e = "- 1" and m = "5 * 10 ^ 27"]) (simp_all add: power_int_def power_divide)
  subgoal by (subst dec_round_eval[where e = "- 1" and m = "75 * 10 ^ 26"]) (simp_all add: power_int_def power_divide)
  subgoal by (subst dec_round_eval[where e = 0 and m = "10 ^ 27"]) (simp_all add: power_int_def power_divide)
  subgoal by (subst dec_round_eval[where e = 0 and m = "15 * 10 ^ 26"]) (simp_all add: power_int_def power_divide)
  done

lemma arch_at:
  "pointAtTime arch (Fin 0) = Inr (Point (Fin 0) (Fin 0))"
  "pointAtTime arch (Fin (1 / 4)) = Inr (Point (Fin (25 / 16)) (Fin (45 / 8)))"
  "pointAtTime arch (Fin (1 / 2)) = Inr (Point (Fin 5) (Fin (15 / 2)))"
  "pointAtTime arch (Fin (3 / 4)) = Inr (Point (Fin (135 / 16)) (Fin (45 / 8)))"
  "pointAtTime arch (Fin 1) = Inr (Point (Fin 10) (Fin 0))"
  by (simp_all add: arch_def cubic_bezier_def Let_def power2_eq_square power3_eq_cube
      fl_round_zero fl_round_5 fl_round_10 fl_round_25_16 fl_round_45_8 fl_round_15_2 fl_round_135_16)

lemma arch_quarter_steps:
  "sample_points arch (Fin (1 / 4)) =
     Some (Inr [Point (Fin 0) (Fin 0), Point (Fin (25 / 16)) (Fin (45 / 8)),
                Point (Fin 5) (Fin (15 / 2)), Point (Fin (135 / 16)) (Fin (45 / 8))])"
  unfolding sample_points_def
  apply (rule drange_for_cons, simp, simp add: fl_round_zero arch_at)
  apply (simp only: add_0 dec_round_quarters)
  apply (rule drange_for_cons, simp, simp only: fl_round_quarter arch_at)
  apply (simp add: dec_round_quarters)
  apply (rule drange_for_cons, simp, simp only: fl_round_half arch_at)
  apply (simp add: dec_round_quarters)
  apply (rule drange_for_cons, simp, simp only: fl_round_three_quarters arch_at)
  apply (simp add: dec_round_quarters)
  apply (rule drange_for_nil, simp)
  done








lemma split_at_nonempty: "split_at sep s \<noteq> []"
  by (induction s) (auto split: list.splits)

lemma split_at_no_sep: "\<forall>c\<in>set s. \<not> sep c \<Longrightarrow> split_at sep s = [s]"
  by (induction s) auto

lemma split_at_parts: "p \<in> set (split_at sep s) \<Longrightarrow> \<forall>c\<in>set p. \<not> sep c"
proof (induction s arbitrary: p)
  case Nil
  then show ?case by simp
next
  case (Cons a s)
  show ?case
  proof (cases "sep a")
    case True
    with Cons show ?thesis by auto
  next
    case False
    obtain q qs where q: "split_at sep s = q # qs"
      using split_at_nonempty[of sep s] by (cases "split_at sep s") auto
    with Cons.prems False have "p = a # q \<or> p \<in> set qs" by auto
    then show ?thesis
    proof
      assume "p = a # q"
      moreover have "\<forall>c\<in>set q. \<not> sep c" using Cons.IH[of q] q by simp
      ultimately show ?thesis using False by simp
    next
      assume "p \<in> set qs"
      then show ?thesis using Cons.IH[of p] q by simp
    qed
  qed
qed

lemma set_strip_chars: "set (strip_chars cs s) \<subseteq> set s"
proof -
  have "set (dropWhile P xs) \<subseteq> set xs" for P and xs :: "char list"
    by (rule set_dropWhileD[THEN subsetI]) 
  then show ?thesis unfolding strip_chars_def
    by (metis (no_types, lifting) set_rev subset_trans)
qed

lemma svg_parts_eq:
  "svg_parts s = map (\<lambda>p. [strip_chars '' ZM'' p]) (split_at (\<lambda>c. c = CHR ''C'' \<or> c = CHR ''L'') s)"
  unfolding svg_parts_def
proof (rule map_cong[OF refl])
  fix p
  assume "p \<in> set (split_at (\<lambda>c. c = CHR ''C'' \<or> c = CHR ''L'') s)"
  then have "\<forall>c\<in>set p. \<not> (c = CHR ''C'' \<or> c = CHR ''L'')" by (rule split_at_parts)
  then have "\<forall>c\<in>set (strip_chars '' ZM'' p). \<not> c = CHR ''L''"
    using set_strip_chars[of "'' ZM''" p] by auto
  then show "split_at (\<lambda>c. c = CHR ''L'') (strip_chars '' ZM'' p) = [strip_chars '' ZM'' p]"
    by (rule split_at_no_sep)
qed

text \<open>The list of number lists, chunk by chunk.\<close>

lemma floats_of_char:
  "floats_of ts =
     (if \<exists>t\<in>set ts. py_float t = None then Inl ValueError
      else Inr (map (the \<circ> py_float) ts))"
proof (induction ts)
  case Nil
  show ?case by simp
next
  case (Cons t ts)
  show ?case
  proof (cases "py_float t")
    case None
    then show ?thesis by simp
  next
    case (Some v)
    with Cons show ?thesis by (simp add: bind_err_def)
  qed
qed

lemma paths_of_singletons:
  "paths_of (map (\<lambda>c. [c]) cs) =
     (if \<exists>c\<in>set (filter (\<lambda>c. 1 < length c) cs). \<exists>t\<in>set (py_split c). py_float t = None
      then Inl ValueError
      else Inr (map (\<lambda>c. map (the \<circ> py_float) (py_split c)) (filter (\<lambda>c. 1 < length c) cs)))"
proof (induction cs)
  case Nil
  show ?case by simp
next
  case (Cons c cs)
  show ?case
  proof (cases "1 < length c")
    case False
    then have "paths_of (map (\<lambda>c. [c]) (c # cs)) = paths_of (map (\<lambda>c. [c]) cs)"
      by (simp add: idx_def bind_err_def)
    with False Cons show ?thesis by auto
  next
    case True
    then have "paths_of (map (\<lambda>c. [c]) (c # cs)) =
        bind_err (floats_of (py_split c)) (\<lambda>p.
          bind_err (paths_of (map (\<lambda>c. [c]) cs)) (\<lambda>ps. Inr (p # ps)))"
      by (simp add: idx_def bind_err_def)
    with True Cons show ?thesis
      by (auto simp: floats_of_char bind_err_def)
  qed
qed

lemma paths_of_chunks:
  "paths_of (svg_parts s) =
     (if \<exists>c\<in>set (chunks s). \<exists>t\<in>set (py_split c). py_float t = None
      then Inl ValueError
      else Inr (map (\<lambda>c. map (the \<circ> py_float) (py_split c)) (chunks s)))"
  unfolding svg_parts_eq chunks_def
  using paths_of_singletons[of "map (strip_chars '' ZM'') (split_at (\<lambda>c. c = CHR ''C'' \<or> c = CHR ''L'') s)"]
  by (simp add: comp_def)

lemma nodes_of_path_char:
  "nodes_of_path n i p =
     (if needed n i \<le> length p
      then Inr (if i = 0 \<or> Suc i = n then anchor_of p else controls_anchor_of p)
      else Inl IndexError)"
proof -
  have e: "(int i = int n - 1) = (Suc i = n)" by auto
  show ?thesis
    unfolding nodes_of_path_def e
    by (auto simp: needed_def idx_def bind_err_def anchor_of_def controls_anchor_of_def)
qed

lemma nodes_of_path_main_eq: "nodes_of_path_main n i p = nodes_of_path n i p"
  by (simp add: nodes_of_path_main_def nodes_of_path_def assert_stmt_def tuple_truth_def bind_err_def)

lemma nodes_loop_main_eq: "nodes_loop_main n i ps = nodes_loop n i ps"
  by (induction ps arbitrary: i) (simp_all add: nodes_of_path_main_eq)

lemma parse_svg_str_main_eq: "parse_svg_str_main s = parse_svg_str s"
  by (simp add: parse_svg_str_main_def parse_svg_str_def nodes_loop_main_eq)

lemma nodes_loop_char:
  "nodes_loop n i ps =
     (if \<forall>k<length ps. needed n (i + k) \<le> length (ps ! k) then Inr (shapes n i ps)
      else Inl IndexError)"
proof (induction ps arbitrary: i)
  case Nil
  show ?case by simp
next
  case (Cons p ps)
  have split: "(\<forall>k<length (p # ps). needed n (i + k) \<le> length ((p # ps) ! k)) \<longleftrightarrow>
      needed n i \<le> length p \<and> (\<forall>k<length ps. needed n (Suc i + k) \<le> length (ps ! k))"
    by (auto simp: less_Suc_eq_0_disj)
  show ?case
    unfolding split
    by (simp add: nodes_of_path_char Cons.IH bind_err_def)
qed



lemma parse_svg_str_char:
  "parse_svg_str s =
     (if \<exists>c\<in>set (chunks s). \<exists>t\<in>set (py_split c). py_float t = None then Inl ValueError
      else if \<forall>k<length (numbers s). needed (length (numbers s)) k \<le> length (numbers s ! k)
      then Inr (shapes (length (numbers s)) 0 (numbers s))
      else Inl IndexError)"
  unfolding parse_svg_str_def paths_of_chunks numbers_def[symmetric]
  by (simp add: bind_err_def nodes_loop_char)

lemma numbers_nth:
  "k < length (chunks s) \<Longrightarrow> length (numbers s ! k) = length (py_split (chunks s ! k))"
  by (simp add: numbers_def)

lemma length_numbers: "length (numbers s) = length (chunks s)"
  by (simp add: numbers_def)

lemma fl_round_nat_small:
  "fl_round 1 = Fin 1" "fl_round 2 = Fin 2" "fl_round 3 = Fin 3" "fl_round 4 = Fin 4"
  "fl_round 6 = Fin 6" "fl_round 9 = Fin 9"
  subgoal by (rule fl_round_exact[where e = 0 and m = "2 ^ 52"]) (simp_all add: power_int_def power_divide)
  subgoal by (rule fl_round_exact[where e = 1 and m = "2 ^ 52"]) (simp_all add: power_int_def power_divide)
  subgoal by (rule fl_round_exact[where e = 1 and m = "3 * 2 ^ 51"]) (simp_all add: power_int_def power_divide)
  subgoal by (rule fl_round_exact[where e = 2 and m = "2 ^ 52"]) (simp_all add: power_int_def power_divide)
  subgoal by (rule fl_round_exact[where e = 2 and m = "3 * 2 ^ 51"]) (simp_all add: power_int_def power_divide)
  subgoal by (rule fl_round_exact[where e = 3 and m = "9 * 2 ^ 49"]) (simp_all add: power_int_def power_divide)
  done

lemmas py_float_defs = py_float_def take_sign_def strip_chars_def float_whitespace_def
  ci_match_def upper_def number_def digitpart_def is_digit_def digit_val_def digits_def exponent_def
  nat_of_digits_def

lemma py_float_digits:
  "py_float ''0'' = Some (Fin 0)" "py_float ''1'' = Some (Fin 1)" "py_float ''2'' = Some (Fin 2)"
  "py_float ''3'' = Some (Fin 3)" "py_float ''4'' = Some (Fin 4)" "py_float ''5'' = Some (Fin 5)"
  "py_float ''6'' = Some (Fin 6)" "py_float ''9'' = Some (Fin 9)"
  by (simp_all add: py_float_defs fl_round_zero fl_round_5 fl_round_nat_small)

lemma py_float_bad:
  "py_float ''x'' = None" "py_float ''y'' = None" "py_float ''0,0'' = None"
  by (simp_all add: py_float_defs)

lemmas parse_defs = parse_svg_str_def svg_parts_def strip_chars_def idx_def bind_err_def
  py_split_def is_space_def whitespace_def nodes_of_path_def

lemma parse_examples:
  "parse_svg_str ''M'' = Inr []"
  "parse_svg_str ''M 0 0 C 1 2 3 4 5'' = Inr [Node (Fin 0) (Fin 0) ''curve'', Node (Fin 1) (Fin 2) ''curve'']"
  "parse_svg_str ''M 0 0 L x L 1 1'' = Inr [Node (Fin 0) (Fin 0) ''curve'', Node (Fin 1) (Fin 1) ''curve'']"
  "parse_svg_str ''M 0 0 L 1 2 3 4 5 6 L 9 9'' =
     Inr [Node (Fin 0) (Fin 0) ''curve'', Node (Fin 1) (Fin 2) ''offcurve'',
          Node (Fin 3) (Fin 4) ''offcurve'', Node (Fin 5) (Fin 6) ''curve'',
          Node (Fin 9) (Fin 9) ''curve'']"
  "parse_svg_str ''M 0 0 L x y'' = Inl ValueError"
  "parse_svg_str ''M 0 0 C 1 2 3 4 5 C 1 2 3 4 5 6'' = Inl IndexError"
  "parse_svg_str ''M 0 0 L 1 1'' = Inr [Node (Fin 0) (Fin 0) ''curve'', Node (Fin 1) (Fin 1) ''curve'']"
  "parse_svg_str ''M0,0 C0,10 10,10 10,0'' = Inl ValueError"
  by (simp_all add: parse_defs py_float_digits py_float_bad)

lemma rhe_minus: "round_half_even (- x) = - round_half_even x"
proof -
  define n where "n = \<lfloor>x\<rfloor>"
  define r where "r = x - of_int n"
  have r: "0 \<le> r" "r < 1" unfolding r_def n_def by linarith+
  have x: "x = of_int n + r" by (simp add: r_def)
  consider "r = 0" | "0 < r" "r < 1 / 2" | "r = 1 / 2" | "1 / 2 < r" using r by linarith
  then show ?thesis
  proof cases
    case 1
    then have "x = of_int n" using x by simp
    then have "round_half_even x = n" "round_half_even (- x) = - n"
      using rhe_of_int[of n] rhe_of_int[of "- n"] by simp_all
    then show ?thesis by simp
  next
    case 2
    have "\<bar>x - of_int n\<bar> < 1 / 2" using 2 x by simp
    then have a: "round_half_even x = n" by (rule rhe_near)
    have "\<bar>- x - of_int (- n)\<bar> < 1 / 2" using 2 x by simp
    then have "round_half_even (- x) = - n" by (rule rhe_near)
    with a show ?thesis by simp
  next
    case 3
    have a: "round_half_even x = (if even n then n else n + 1)"
      by (rule rhe_tie) (use 3 x in simp)
    have "round_half_even (- x) = (if even (- n - 1) then - n - 1 else (- n - 1) + 1)"
      by (rule rhe_tie) (use 3 x in simp)
    with a show ?thesis by auto
  next
    case 4
    have "\<bar>x - of_int (n + 1)\<bar> < 1 / 2" using 4 r x by simp
    then have a: "round_half_even x = n + 1" by (rule rhe_near)
    have "\<bar>- x - of_int (- (n + 1))\<bar> < 1 / 2" using 4 r x by simp
    then have "round_half_even (- x) = - (n + 1)" by (rule rhe_near)
    with a show ?thesis by simp
  qed
qed

lemma round_sig_minus: "round_sig b p m (- x) = - round_sig b p m x"
  by (simp add: round_sig_def Let_def rhe_minus)

lemma fl_round_minus:
  "fl_round (- x) = (case fl_round x of Fin v \<Rightarrow> Fin (- v) | PInf \<Rightarrow> NInf | NInf \<Rightarrow> PInf | NaN \<Rightarrow> NaN)"
proof -
  have "(0::rat) < 2 ^ 1024" by simp
  then show ?thesis
    unfolding fl_round_def Let_def round_sig_minus
    by (auto simp: neg_le_iff_le minus_le_iff le_minus_iff)
qed

lemma fl_round_neg_half: "fl_round (- 1 / 2) = Fin (- 1 / 2)"
  using fl_round_minus[of "1 / 2"] by (simp add: fl_round_half)


lemma drange_for_raises:
  assumes "\<forall>i\<le>k. acc x s i < y"
    and "\<forall>i<k. \<exists>p. f (fl_round (acc x s i)) = Inr p"
    and "f (fl_round (acc x s k)) = Inl e"
  shows "drange_for f (DFin x) (DFin y) (Fin s) = Some (Inl e)"
  using assms
proof (induction k arbitrary: x)
  case 0
  then show ?case by (subst drange_for_Fin) simp
next
  case (Suc k)
  have x: "x < y" using Suc.prems(1)[rule_format, of 0] by simp
  from Suc.prems(2)[rule_format, of 0] obtain p where p: "f (fl_round x) = Inr p" by auto
  have "drange_for f (DFin (dec_round (x + s))) (DFin y) (Fin s) = Some (Inl e)"
  proof (rule Suc.IH)
    show "\<forall>i\<le>k. acc (dec_round (x + s)) s i < y"
      using Suc.prems(1) by (simp add: acc_shift del: acc.simps)
    show "\<forall>i<k. \<exists>p. f (fl_round (acc (dec_round (x + s)) s i)) = Inr p"
      using Suc.prems(2) by (simp add: acc_shift del: acc.simps)
    show "f (fl_round (acc (dec_round (x + s)) s k)) = Inl e"
      using Suc.prems(3) by (simp add: acc_shift del: acc.simps)
  qed
  with x p show ?case by (subst drange_for_Fin) simp
qed

lemma drange_for_forever:
  assumes "\<forall>i. acc x s i < y" and "\<forall>i. \<exists>p. f (fl_round (acc x s i)) = Inr p"
  shows "drange_for f (DFin x) (DFin y) (Fin s) = None"
proof (rule drange_for_diverges[where I = "\<lambda>z. \<exists>i. z = acc x s i"])
  show "\<exists>i. x = acc x s i" by (rule exI[of _ 0]) simp
next
  fix z
  assume "\<exists>i. z = acc x s i"
  then obtain i where z: "z = acc x s i" by blast
  have "dec_round (z + s) = acc x s (Suc i)" by (simp add: z)
  then have "\<exists>j. dec_round (z + s) = acc x s j" by blast
  with assms z show "z < y \<and> (\<exists>p. f (fl_round z) = Inr p) \<and> (\<exists>i. dec_round (z + s) = acc x s i)"
    by blast
qed

lemma acc_zero_step: "acc 0 0 i = 0"
  by (induction i) (simp_all add: dec_round_zero)

lemma dec_round_neg_half: "dec_round (- 1 / 2) = - 1 / 2"
  by (subst dec_round_eval[where e = "- 1" and m = "- 5 * 10 ^ 27"]) (simp_all add: power_int_def power_divide)




lemma exit_unique:
  assumes "\<forall>i<n. acc 0 s i < 1" "1 \<le> acc 0 s n" "\<forall>i<m. acc 0 s i < 1" "1 \<le> acc 0 s m"
  shows "n = m"
proof (rule ccontr)
  assume "n \<noteq> m"
  then consider "n < m" | "m < n" by linarith
  then show False
  proof cases
    case 1
    with assms(3) have "acc 0 s n < 1" by simp
    with assms(2) show False by simp
  next
    case 2
    with assms(1) have "acc 0 s m < 1" by simp
    with assms(4) show False by simp
  qed
qed

lemma acc_numeral: "acc x s (numeral k) = dec_round (acc x s (pred_numeral k) + s)"
  by (simp add: numeral_eq_Suc)

lemma acc_one: "acc x s 1 = dec_round (x + s)"
  by simp

lemma fifteenth_acc:
  fixes s :: rat
  defines "s \<equiv> 4803839602528529 / 2 ^ 56"
  shows
    "acc 0 s 1 = 6666666666666666574148081281 / 10 ^ 29"
    "acc 0 s 2 = 1333333333333333314829616256 / 10 ^ 28"
    "acc 0 s 3 = 1999999999999999972244424384 / 10 ^ 28"
    "acc 0 s 4 = 2666666666666666629659232512 / 10 ^ 28"
    "acc 0 s 5 = 3333333333333333287074040640 / 10 ^ 28"
    "acc 0 s 6 = 3999999999999999944488848768 / 10 ^ 28"
    "acc 0 s 7 = 4666666666666666601903656896 / 10 ^ 28"
    "acc 0 s 8 = 5333333333333333259318465024 / 10 ^ 28"
    "acc 0 s 9 = 5999999999999999916733273152 / 10 ^ 28"
    "acc 0 s 10 = 6666666666666666574148081280 / 10 ^ 28"
    "acc 0 s 11 = 7333333333333333231562889408 / 10 ^ 28"
    "acc 0 s 12 = 7999999999999999888977697536 / 10 ^ 28"
    "acc 0 s 13 = 8666666666666666546392505664 / 10 ^ 28"
    "acc 0 s 14 = 9333333333333333203807313792 / 10 ^ 28"
    "acc 0 s 15 = 9999999999999999861222121920 / 10 ^ 28"
    "acc 0 s 16 = 1066666666666666651863693005 / 10 ^ 27"
proof -
  show 1: "acc 0 s 1 = 6666666666666666574148081281 / 10 ^ 29"
    unfolding s_def acc_one by (rule fifteenth_steps(1))
  show 2: "acc 0 s 2 = 1333333333333333314829616256 / 10 ^ 28"
    unfolding acc_numeral pred_numeral_simps BitM.simps numeral_One 1 unfolding s_def by (rule fifteenth_steps)
  show 3: "acc 0 s 3 = 1999999999999999972244424384 / 10 ^ 28"
    unfolding acc_numeral[of _ _ "num.Bit1 num.One"] pred_numeral_simps BitM.simps 2 unfolding s_def by (rule fifteenth_steps)
  show 4: "acc 0 s 4 = 2666666666666666629659232512 / 10 ^ 28"
    unfolding acc_numeral[of _ _ "num.Bit0 (num.Bit0 num.One)"] pred_numeral_simps BitM.simps 3 unfolding s_def by (rule fifteenth_steps)
  show 5: "acc 0 s 5 = 3333333333333333287074040640 / 10 ^ 28"
    unfolding acc_numeral[of _ _ "num.Bit1 (num.Bit0 num.One)"] pred_numeral_simps BitM.simps 4 unfolding s_def by (rule fifteenth_steps)
  show 6: "acc 0 s 6 = 3999999999999999944488848768 / 10 ^ 28"
    unfolding acc_numeral[of _ _ "num.Bit0 (num.Bit1 num.One)"] pred_numeral_simps BitM.simps 5 unfolding s_def by (rule fifteenth_steps)
  show 7: "acc 0 s 7 = 4666666666666666601903656896 / 10 ^ 28"
    unfolding acc_numeral[of _ _ "num.Bit1 (num.Bit1 num.One)"] pred_numeral_simps BitM.simps 6 unfolding s_def by (rule fifteenth_steps)
  show 8: "acc 0 s 8 = 5333333333333333259318465024 / 10 ^ 28"
    unfolding acc_numeral[of _ _ "num.Bit0 (num.Bit0 (num.Bit0 num.One))"] pred_numeral_simps BitM.simps 7 unfolding s_def by (rule fifteenth_steps)
  show 9: "acc 0 s 9 = 5999999999999999916733273152 / 10 ^ 28"
    unfolding acc_numeral[of _ _ "num.Bit1 (num.Bit0 (num.Bit0 num.One))"] pred_numeral_simps BitM.simps 8 unfolding s_def by (rule fifteenth_steps)
  show 10: "acc 0 s 10 = 6666666666666666574148081280 / 10 ^ 28"
    unfolding acc_numeral[of _ _ "num.Bit0 (num.Bit1 (num.Bit0 num.One))"] pred_numeral_simps BitM.simps 9 unfolding s_def by (rule fifteenth_steps)
  show 11: "acc 0 s 11 = 7333333333333333231562889408 / 10 ^ 28"
    unfolding acc_numeral[of _ _ "num.Bit1 (num.Bit1 (num.Bit0 num.One))"] pred_numeral_simps BitM.simps 10 unfolding s_def by (rule fifteenth_steps)
  show 12: "acc 0 s 12 = 7999999999999999888977697536 / 10 ^ 28"
    unfolding acc_numeral[of _ _ "num.Bit0 (num.Bit0 (num.Bit1 num.One))"] pred_numeral_simps BitM.simps 11 unfolding s_def by (rule fifteenth_steps)
  show 13: "acc 0 s 13 = 8666666666666666546392505664 / 10 ^ 28"
    unfolding acc_numeral[of _ _ "num.Bit1 (num.Bit0 (num.Bit1 num.One))"] pred_numeral_simps BitM.simps 12 unfolding s_def by (rule fifteenth_steps)
  show 14: "acc 0 s 14 = 9333333333333333203807313792 / 10 ^ 28"
    unfolding acc_numeral[of _ _ "num.Bit0 (num.Bit1 (num.Bit1 num.One))"] pred_numeral_simps BitM.simps 13 unfolding s_def by (rule fifteenth_steps)
  show 15: "acc 0 s 15 = 9999999999999999861222121920 / 10 ^ 28"
    unfolding acc_numeral[of _ _ "num.Bit1 (num.Bit1 (num.Bit1 num.One))"] pred_numeral_simps BitM.simps 14 unfolding s_def by (rule fifteenth_steps)
  show "acc 0 s 16 = 1066666666666666651863693005 / 10 ^ 27"
    unfolding acc_numeral[of _ _ "num.Bit0 (num.Bit0 (num.Bit0 (num.Bit0 num.One)))"] pred_numeral_simps BitM.simps 15 unfolding s_def by (rule fifteenth_steps)
qed

lemma fifteenth_below:
  assumes "j < 16"
  shows "acc 0 (4803839602528529 / 2 ^ 56) j < 1"
proof -
  have "j < 8 \<or> 8 \<le> j" by linarith
  then show ?thesis
  proof
    assume "j < 8"
    then have "j = 0 \<or> j = 1 \<or> j = 2 \<or> j = 3 \<or> j = 4 \<or> j = 5 \<or> j = 6 \<or> j = 7"
      by presburger
    then show ?thesis
      by (elim disjE) (simp_all only: fifteenth_acc acc.simps, simp_all)
  next
    assume "8 \<le> j"
    with assms have "j = 8 \<or> j = 9 \<or> j = 10 \<or> j = 11 \<or> j = 12 \<or> j = 13 \<or> j = 14 \<or> j = 15"
      by presburger
    then show ?thesis
      by (elim disjE) (simp_all only: fifteenth_acc acc.simps, simp_all)
  qed
qed

lemma fifteenth_run:
  assumes v: "\<forall>t. 0 \<le> t \<and> t \<le> 1 \<longrightarrow> (\<exists>p. f (Fin t) = Inr p)"
  shows "\<exists>ps. drange_for f (DFin 0) (DFin 1) (Fin (4803839602528529 / 2 ^ 56)) = Some (Inr ps) \<and>
           length ps = 16 \<and> f (Fin 1) = Inr (last ps)"
proof -
  define s :: rat where "s = 4803839602528529 / 2 ^ 56"
  define g where "g = (\<lambda>i. projr (f (fl_round (acc 0 s i))))"
  have s0: "0 < s" by (simp add: s_def)
  have lt: "\<forall>i<16. acc 0 s i < 1" unfolding s_def using fifteenth_below by blast
  have ge: "1 \<le> acc 0 s 16" unfolding s_def by (simp only: fifteenth_acc) simp
  have gi: "\<forall>i<16. f (fl_round (acc 0 s i)) = Inr (g i)"
  proof (intro allI impI)
    fix i :: nat assume "i < 16"
    with lt have "acc 0 s i < 1" by blast
    moreover have "0 \<le> acc 0 s i" by (rule acc_nonneg) (use s0 in simp_all)
    ultimately obtain p where "f (fl_round (acc 0 s i)) = Inr p"
      using unit_valid[OF v] by blast
    then show "f (fl_round (acc 0 s i)) = Inr (g i)" by (simp add: g_def)
  qed
  have run: "drange_for f (DFin 0) (DFin 1) (Fin s) = Some (Inr (map g [0..<16]))"
    using lt ge gi by (rule drange_for_acc)
  have "last (map g [0..<16]) = g 15" by (simp add: last_map)
  moreover have "f (fl_round (acc 0 s 15)) = Inr (g 15)" using gi by simp
  moreover have "fl_round (acc 0 s 15) = Fin 1"
    unfolding s_def by (simp only: fifteenth_acc fl_round_near_one)
  ultimately have "f (Fin 1) = Inr (last (map g [0..<16]))" by simp
  with run show ?thesis unfolding s_def by (intro exI[of _ "map g [0..<16]"]) simp
qed

lemma fl_round_12: "fl_round 12 = Fin 12"
  by (rule fl_round_exact[where e = 3 and m = "3 * 2 ^ 51"]) (simp_all add: power_int_def power_divide)

lemma fl_round_15: "fl_round 15 = Fin 15"
  by (rule fl_round_exact[where e = 3 and m = "15 * 2 ^ 49"]) (simp_all add: power_int_def power_divide)

lemma quarter_drange:
  "drange (DFin 0) (DFin 1) (Fin (1 / 4)) = Some (Inr [Fin 0, Fin (1 / 4), Fin (1 / 2), Fin (3 / 4)])"
  unfolding drange_def
  apply (rule drange_for_cons, simp, simp add: fl_round_zero)
  apply (simp only: add_0 dec_round_quarters)
  apply (rule drange_for_cons, simp, simp only: fl_round_quarter)
  apply (simp add: dec_round_quarters)
  apply (rule drange_for_cons, simp, simp only: fl_round_half)
  apply (simp add: dec_round_quarters)
  apply (rule drange_for_cons, simp, simp only: fl_round_three_quarters)
  apply (simp add: dec_round_quarters)
  apply (rule drange_for_nil, simp)
  done

lemma drange_acc:
  assumes s: "1 / 10 ^ 28 \<le> s"
  shows "\<exists>n>0. drange (DFin 0) (DFin 1) (Fin s) =
                  Some (Inr (map (\<lambda>i. fl_round (acc 0 s i)) [0..<n])) \<and>
               (\<forall>i<n. 0 \<le> acc 0 s i \<and> acc 0 s i < 1) \<and> 1 \<le> acc 0 s n"
proof -
  from acc_exit[OF s] obtain n where n: "0 < n"
    and b: "\<forall>i<n. 0 \<le> acc 0 s i \<and> acc 0 s i < 1" and e: "1 \<le> acc 0 s n" by blast
  have "drange_for Inr (DFin 0) (DFin 1) (Fin s) = Some (Inr (map (\<lambda>i. fl_round (acc 0 s i)) [0..<n]))"
    using b e by (intro drange_for_acc) auto
  with n b e show ?thesis unfolding drange_def by blast
qed

lemma valid_segment: "valid_model segment"
  by (simp add: valid_model_def segment_def)

lemma segment_end: "pointAtTime segment (Fin 1) = Inr (Point (Fin 9) (Fin 12))"
  by (simp add: segment_def fl_round_nat_small fl_round_12)

lemma py_float_12: "py_float ''12'' = Some (Fin 12)"
  by (simp add: py_float_defs fl_round_12)

lemma parse_segment:
  "parse_svg_str ''M 0 0 L 9 12'' = Inr [Node (Fin 0) (Fin 0) ''curve'', Node (Fin 9) (Fin 12) ''curve'']"
  by (simp add: parse_defs py_float_digits py_float_12)

lemma powi_less_imp:
  fixes b :: rat
  assumes "1 < b" "b powi m < b powi n"
  shows "m < n"
proof (rule ccontr)
  assume "\<not> m < n"
  then have "n \<le> m" by simp
  then have "b powi n \<le> b powi m" using assms(1) by (intro power_int_increasing) simp_all
  with assms(2) show False by simp
qed

lemma fl_round_shape:
  assumes "0 < x"
  shows "round_sig 2 53 (Some (- 1022)) x =
         of_int (round_half_even (x / 2 powi (max (ilog 2 x) (- 1022) - 52))) *
           2 powi (max (ilog 2 x) (- 1022) - 52)"
  using assms by (simp add: round_sig_def Let_def)

lemma fl_round_Fin_iff:
  "fl_round x = Fin v \<longleftrightarrow>
     round_sig 2 53 (Some (- 1022)) x = v \<and> v < 2 ^ 1024 \<and> - (2 ^ 1024) < v"
  unfolding fl_round_def Let_def by auto

lemma double_shape:
  assumes fx: "fl_round x = Fin x" and x0: "0 < x"
  defines "e \<equiv> max (ilog 2 x) (- 1022)"
  defines "q \<equiv> (2::rat) powi (e - 52)"
  shows "\<exists>n. x = of_int n * q \<and> 0 < n \<and> n < 2 ^ 53 \<and> (- 1022 < e \<longrightarrow> 2 ^ 52 \<le> n)"
    and "x < 2 ^ 1024"
proof -
  have q0: "0 < q" by (simp add: q_def)
  define n where "n = round_half_even (x / q)"
  from fx have v: "round_sig 2 53 (Some (- 1022)) x = x" and "x < 2 ^ 1024"
    by (simp_all add: fl_round_Fin_iff)
  then show "x < 2 ^ 1024" by simp
  have xn: "x = of_int n * q"
    using v fl_round_shape[OF x0] by (simp add: n_def q_def e_def)
  have ib: "2 powi ilog 2 x \<le> x" "x < 2 powi (ilog 2 x + 1)"
    using ilog_bounds[of x 2] x0 by simp_all
  have "(2::rat) powi (ilog 2 x + 1) \<le> 2 powi (e + 1)"
    by (intro power_int_increasing) (simp_all add: e_def)
  with ib have xlt: "x < 2 powi (e + 1)" by linarith
  have q53: "q * 2 ^ 53 = 2 powi (e + 1)"
  proof -
    have "q * 2 ^ 53 = q * 2 powi 53" by simp
    also have "\<dots> = 2 powi (e - 52 + 53)"
      unfolding q_def by (subst power_int_add) simp_all
    also have "e - 52 + 53 = e + 1" by simp
    finally show ?thesis .
  qed
  have "of_int n * q < 2 ^ 53 * q" using xlt xn q53 by (simp add: mult.commute)
  then have "(of_int n :: rat) < 2 ^ 53" using q0 by (simp only: mult_less_cancel_right_pos)
  then have "(of_int n :: rat) < of_int (2 ^ 53)" by simp
  then have n53: "n < 2 ^ 53" by (simp only: of_int_less_iff)
  have "0 < of_int n * q" using x0 xn by simp
  then have "(0::rat) < of_int n" using q0 by (simp add: zero_less_mult_iff)
  then have n0: "0 < n" by simp
  have big: "2 ^ 52 \<le> n" if "- 1022 < e"
  proof -
    from that have "e = ilog 2 x" by (simp add: e_def max_def split: if_splits)
    with ib have "2 powi e \<le> x" by simp
    moreover have "q * 2 ^ 52 = 2 powi e"
    proof -
      have "q * 2 ^ 52 = q * 2 powi 52" by simp
      also have "\<dots> = 2 powi (e - 52 + 52)"
        unfolding q_def by (subst power_int_add) simp_all
      finally show ?thesis by simp
    qed
    ultimately have "2 ^ 52 * q \<le> of_int n * q" using xn by (simp add: mult.commute)
    then have "(2 ^ 52 :: rat) \<le> of_int n" using q0 by (simp only: mult_le_cancel_right_pos)
    then have "(of_int (2 ^ 52) :: rat) \<le> of_int n" by simp
    then show ?thesis by (simp only: of_int_le_iff)
  qed
  from xn n0 n53 big show "\<exists>n. x = of_int n * q \<and> 0 < n \<and> n < 2 ^ 53 \<and> (- 1022 < e \<longrightarrow> 2 ^ 52 \<le> n)"
    by blast
qed

lemma fl_round_close:
  assumes fx: "fl_round x = Fin x" and x0: "0 < x" and c: "\<bar>c - x\<bar> * (2 * 10 ^ 16) \<le> x"
  shows "fl_round c = Fin x"
proof -
  define e where "e = max (ilog 2 x) (- 1022)"
  define q :: rat where "q = 2 powi (e - 52)"
  have q0: "0 < q" by (simp add: q_def)
  have e_lo: "- 1022 \<le> e" by (simp add: e_def)
  from double_shape[OF fx x0] obtain n where xn: "x = of_int n * q" and n0: "0 < n"
    and n53: "n < 2 ^ 53" and big: "- 1022 < e \<longrightarrow> 2 ^ 52 \<le> n" and xmax: "x < 2 ^ 1024"
    unfolding e_def q_def by blast
  have q53: "q * 2 ^ 53 = 2 powi (e + 1)"
  proof -
    have "q * 2 ^ 53 = q * 2 powi 53" by simp
    also have "\<dots> = 2 powi (e - 52 + 53)"
      unfolding q_def by (subst power_int_add) simp_all
    also have "e - 52 + 53 = e + 1" by simp
    finally show ?thesis .
  qed
  have q52: "q * 2 ^ 52 = 2 powi e"
  proof -
    have "q * 2 ^ 52 = q * 2 powi 52" by simp
    also have "\<dots> = 2 powi (e - 52 + 52)"
      unfolding q_def by (subst power_int_add) simp_all
    finally show ?thesis by simp
  qed
  have n1: "(1::rat) \<le> of_int n" using n0 by simp
  have nle: "(of_int n :: rat) \<le> 2 ^ 53 - 1"
  proof -
    from n53 have "n \<le> 2 ^ 53 - 1" by simp
    then have "(of_int n :: rat) \<le> of_int (2 ^ 53 - 1)" by (simp only: of_int_le_iff)
    then show ?thesis by simp
  qed
  have xq: "q \<le> x" using n1 q0 xn by simp
  have xhi: "x + q \<le> q * 2 ^ 53"
  proof -
    have "of_int n * q \<le> (2 ^ 53 - 1) * q" using nle q0 by (simp only: mult_le_cancel_right_pos)
    then show ?thesis by (simp add: xn algebra_simps)
  qed
  have d: "\<bar>c - x\<bar> < 46 / 100 * q"
  proof -
    have "\<bar>c - x\<bar> * (2 * 10 ^ 16) \<le> q * 2 ^ 53" using c xhi q0 by linarith
    also have "\<dots> < (46 / 100 * q) * (2 * 10 ^ 16)" using q0 by simp
    finally show ?thesis by (rule mult_right_less_imp_less) simp
  qed
  have c0: "0 < c" using d xq q0 by linarith
  define e' where "e' = max (ilog 2 c) (- 1022)"
  define q' :: rat where "q' = 2 powi (e' - 52)"
  have jb: "2 powi ilog 2 c \<le> c" "c < 2 powi (ilog 2 c + 1)"
    using ilog_bounds[of c 2] c0 by simp_all
  have rc: "round_sig 2 53 (Some (- 1022)) c = of_int (round_half_even (c / q')) * q'"
    using fl_round_shape[OF c0] by (simp add: e'_def q'_def)
  have le: "e' \<le> e"
  proof -
    have "c < x + q" using d q0 by linarith
    with xhi q53 have "c < 2 powi (e + 1)" by linarith
    with jb(1) have "(2::rat) powi ilog 2 c < 2 powi (e + 1)" by linarith
    then have "ilog 2 c < e + 1" by (intro powi_less_imp[of 2]) simp_all
    with e_lo show ?thesis by (simp add: e'_def)
  qed
  have val: "of_int (round_half_even (c / q')) * q' = x"
  proof (cases "e' = e")
    case True
    then have qq: "q' = q" by (simp add: q'_def q_def)
    have "c / q - of_int n = (c - x) / q" using q0 by (simp add: xn field_simps)
    then have "\<bar>c / q - of_int n\<bar> = \<bar>c - x\<bar> / q" using q0 by (simp add: abs_divide)
    also have "\<dots> < 46 / 100" using d q0 by (simp add: pos_divide_less_eq)
    finally have "\<bar>c / q - of_int n\<bar> < 1 / 2" by simp
    then have "round_half_even (c / q) = n" by (rule rhe_near)
    then show ?thesis by (simp add: qq xn)
  next
    case False
    with le have lt: "e' < e" by simp
    have e'_lo: "- 1022 \<le> e'" by (simp add: e'_def)
    with lt have e_big: "- 1022 < e" by simp
    with big have n52: "2 ^ 52 \<le> n" by simp
    have "ilog 2 c \<le> e'" by (simp add: e'_def)
    with lt have "ilog 2 c + 1 \<le> e" by simp
    then have "(2::rat) powi (ilog 2 c + 1) \<le> 2 powi e" by (intro power_int_increasing) simp_all
    with jb(2) have c_lt: "c < 2 powi e" by linarith
    have n_eq: "n = 2 ^ 52"
    proof (rule ccontr)
      assume "n \<noteq> 2 ^ 52"
      with n52 have "2 ^ 52 + 1 \<le> n" by simp
      then have "(of_int (2 ^ 52 + 1) :: rat) \<le> of_int n" by (simp only: of_int_le_iff)
      then have "(2 ^ 52 + 1 :: rat) \<le> of_int n" by simp
      then have "(2 ^ 52 + 1) * q \<le> of_int n * q" using q0 by (simp only: mult_le_cancel_right_pos)
      then have "2 powi e + q \<le> x" using q52 by (simp add: xn algebra_simps)
      with d q0 have "2 powi e < c" by linarith
      with c_lt show False by simp
    qed
    then have xe: "x = 2 powi e" using q52 by (simp add: xn mult.commute)
    have xq': "x = q * 2 ^ 52" using xe q52 by simp
    have half: "2 powi (e - 1) * 2 = (2::rat) powi e"
    proof -
      have "(2::rat) powi (e - 1) * 2 powi 1 = 2 powi (e - 1 + 1)"
        by (subst power_int_add) simp_all
      then show ?thesis by simp
    qed
    have "2 powi (e - 1) \<le> c"
    proof -
      have "46 / 100 * q \<le> q * 2 ^ 51" using q0 by simp
      moreover have "q * 2 ^ 51 * 2 = 2 powi e" using q52 by simp
      ultimately have "46 / 100 * q \<le> 2 powi (e - 1)" using half by linarith
      with d xe half show ?thesis by linarith
    qed
    with jb(2) have "(2::rat) powi (e - 1) < 2 powi (ilog 2 c + 1)" by linarith
    then have "e - 1 < ilog 2 c + 1" by (intro powi_less_imp[of 2]) simp_all
    with \<open>ilog 2 c + 1 \<le> e\<close> have "ilog 2 c = e - 1" by simp
    with e_big have e'_eq: "e' = e - 1" by (simp add: e'_def)
    have qh: "q' * 2 = q"
    proof -
      have "(2::rat) powi (e - 1 - 52) * 2 powi 1 = 2 powi (e - 1 - 52 + 1)"
        by (subst power_int_add) simp_all
      then show ?thesis by (simp add: q'_def q_def e'_eq)
    qed
    have q'0: "0 < q'" by (simp add: q'_def)
    have x53: "x = of_int (2 ^ 53) * q'" using xq' qh by simp
    have "\<bar>c - x\<bar> * (2 * 10 ^ 16) \<le> q' * 2 ^ 53" using c x53 by (simp add: mult.commute)
    also have "\<dots> < (q' / 2) * (2 * 10 ^ 16)" using q'0 by simp
    finally have dd: "\<bar>c - x\<bar> < q' / 2" by (rule mult_right_less_imp_less) simp
    have "c / q' - of_int (2 ^ 53) = (c - x) / q'" using q'0 by (simp add: x53 field_simps)
    then have "\<bar>c / q' - of_int (2 ^ 53)\<bar> = \<bar>c - x\<bar> / q'" using q'0 by (simp add: abs_divide)
    also have "\<dots> < 1 / 2" using dd q'0 by (simp add: pos_divide_less_eq)
    finally have "round_half_even (c / q') = 2 ^ 53" by (rule rhe_near)
    then show ?thesis by (simp only: x53)
  qed
  have "- (2 ^ 1024) < x" using x0 by (simp add: less_trans[of _ 0])
  with val xmax show ?thesis by (simp add: fl_round_Fin_iff rc)
qed

section \<open>Claims about the sampler\<close>




text \<open>
  C2. The generator does start at 0, advance by the step and stop as soon as its
  accumulator reaches 1: for every step of at least \<open>10^-28\<close> the parameters it yields
  are the floats of the accumulator values, all of which are below 1 (first statement),
  and with step 0.25 they are 0, 0.25, 0.5 and 0.75 (second statement). But the test
  \<^verbatim>\<open>x < y\<close> is on the 28-digit accumulator and the value yielded is \<^verbatim>\<open>float(x)\<close>. For a
  path of length 15 the step is \<open>1 / 15.0\<close>; after fifteen increments the accumulator
  is \<open>0.9999999999999999861222121920\<close>, below 1, and its float is \<open>1.0\<close>: sixteen
  parameters are yielded, the last being 1, and both programs append the position at
  parameter 1, the final anchor of the path.
\<close>

theorem drange_parameters:
  "(1 / 10 ^ 28 \<le> s \<longrightarrow>
      (\<exists>n>0. drange (DFin 0) (DFin 1) (Fin s) =
                Some (Inr (map (\<lambda>i. fl_round (acc 0 s i)) [0..<n])) \<and>
             (\<forall>i<n. 0 \<le> acc 0 s i \<and> acc 0 s i < 1) \<and> 1 \<le> acc 0 s n)) \<and>
   drange (DFin 0) (DFin 1) (Fin (1 / 4)) =
     Some (Inr [Fin 0, Fin (1 / 4), Fin (1 / 2), Fin (3 / 4)]) \<and>
   truediv (Fin 1) (Fin 15) = Inr (Fin (4803839602528529 / 2 ^ 56)) \<and>
   acc 0 (4803839602528529 / 2 ^ 56) 15 = 9999999999999999861222121920 / 10 ^ 28 \<and>
   fl_round (acc 0 (4803839602528529 / 2 ^ 56) 15) = Fin 1 \<and>
   map_option (map_sum id length) (drange (DFin 0) (DFin 1) (Fin (4803839602528529 / 2 ^ 56))) =
     Some (Inr 16) \<and>
   map_option (map_sum id last) (drange (DFin 0) (DFin 1) (Fin (4803839602528529 / 2 ^ 56))) =
     Some (Inr (Fin 1)) \<and>
   (length_curve c = Fin 15 \<and> valid_model c \<longrightarrow>
      (\<exists>ps. curve_as_points_video c (Fin 1) = Some (Inr ps) \<and> length ps = 16 \<and>
            pointAtTime c (Fin 1) = Inr (last ps)) \<and>
      (\<exists>ps p. curve_as_points_main c = Some (Inr ps) \<and> length ps = 16 \<and>
            pointAtTime c (Fin 1) = Inr p \<and> last ps = [point_x p, point_y p]))"
proof -
  have 1: "1 / 10 ^ 28 \<le> s \<longrightarrow>
      (\<exists>n>0. drange (DFin 0) (DFin 1) (Fin s) =
                Some (Inr (map (\<lambda>i. fl_round (acc 0 s i)) [0..<n])) \<and>
             (\<forall>i<n. 0 \<le> acc 0 s i \<and> acc 0 s i < 1) \<and> 1 \<le> acc 0 s n)"
    using drange_acc by blast
  have 3: "truediv (Fin 1) (Fin 15) = Inr (Fin (4803839602528529 / 2 ^ 56))"
    by (simp add: fl_round_fifteenth)
  have 4: "acc 0 (4803839602528529 / 2 ^ 56) 15 = 9999999999999999861222121920 / 10 ^ 28"
    by (rule fifteenth_acc)
  have 5: "fl_round (acc 0 (4803839602528529 / 2 ^ 56) 15) = Fin 1"
    by (simp only: fifteenth_acc fl_round_near_one)
  have "\<forall>t. 0 \<le> t \<and> t \<le> 1 \<longrightarrow> (\<exists>p. (Inr :: pyfloat \<Rightarrow> error + pyfloat) (Fin t) = Inr p)" by simp
  from fifteenth_run[OF this] obtain ts where
    ts: "drange_for Inr (DFin 0) (DFin 1) (Fin (4803839602528529 / 2 ^ 56)) = Some (Inr ts)"
      "length ts = 16" "(Inr (Fin 1) :: error + pyfloat) = Inr (last ts)" by blast
  have 6: "map_option (map_sum id length) (drange (DFin 0) (DFin 1) (Fin (4803839602528529 / 2 ^ 56))) =
     Some (Inr 16)"
    unfolding drange_def using ts by simp
  have 7: "map_option (map_sum id last) (drange (DFin 0) (DFin 1) (Fin (4803839602528529 / 2 ^ 56))) =
     Some (Inr (Fin 1))"
    unfolding drange_def using ts by simp
  have 8: "(\<exists>ps. curve_as_points_video c (Fin 1) = Some (Inr ps) \<and> length ps = 16 \<and>
            pointAtTime c (Fin 1) = Inr (last ps)) \<and>
      (\<exists>ps p. curve_as_points_main c = Some (Inr ps) \<and> length ps = 16 \<and>
            pointAtTime c (Fin 1) = Inr p \<and> last ps = [point_x p, point_y p])"
    if h: "length_curve c = Fin 15 \<and> valid_model c"
  proof -
    from h have v: "\<forall>t. 0 \<le> t \<and> t \<le> 1 \<longrightarrow> (\<exists>p. pointAtTime c (Fin t) = Inr p)"
      by (simp add: valid_model_def)
    from fifteenth_run[OF v] obtain ps where
      ps: "sample_points c (Fin (4803839602528529 / 2 ^ 56)) = Some (Inr ps)"
        "length ps = 16" "pointAtTime c (Fin 1) = Inr (last ps)"
      unfolding sample_points_def by blast
    have "curve_as_points_video c (Fin 1) = Some (Inr ps)"
      using h ps(1) by (simp add: curve_as_points_video_def fl_round_15 fl_round_fifteenth)
    with ps have a: "\<exists>ps. curve_as_points_video c (Fin 1) = Some (Inr ps) \<and> length ps = 16 \<and>
            pointAtTime c (Fin 1) = Inr (last ps)" by blast
    have ne: "ps \<noteq> []" using ps(2) by auto
    have m: "curve_as_points_main c = Some (Inr (map (\<lambda>p. [point_x p, point_y p]) ps))"
      using h ps(1) by (simp add: curve_as_points_main_def fl_round_fifteenth zip_xy)
    have "last (map (\<lambda>p. [point_x p, point_y p]) ps) = [point_x (last ps), point_y (last ps)]"
      using ne by (simp add: last_map)
    with m ps have "\<exists>qs p. curve_as_points_main c = Some (Inr qs) \<and> length qs = 16 \<and>
            pointAtTime c (Fin 1) = Inr p \<and> last qs = [point_x p, point_y p]"
      by (intro exI[of _ "map (\<lambda>p. [point_x p, point_y p]) ps"] exI[of _ "last ps"]) simp
    with a show ?thesis by blast
  qed
  from 1 quarter_drange 3 4 5 6 7 8 show ?thesis by blast
qed

theorem drange_parameters_witness:
  "(1::rat) / 10 ^ 28 \<le> 1 / 4 \<and>
   drange (DFin 0) (DFin 1) (Fin (1 / 4)) =
     Some (Inr (map (\<lambda>i. fl_round (acc 0 (1 / 4) i)) [0..<4])) \<and>
   acc 0 (1 / 4) 3 < 1 \<and> 1 \<le> acc 0 (1 / 4) 4 \<and>
   parse_svg_str ''M 0 0 L 9 12'' =
     Inr [Node (Fin 0) (Fin 0) ''curve'', Node (Fin 9) (Fin 12) ''curve''] \<and>
   length_curve segment = Fin 15 \<and> valid_model segment \<and>
   pointAtTime segment (Fin 1) = Inr (Point (Fin 9) (Fin 12)) \<and>
   (\<exists>ps. curve_as_points_video segment (Fin 1) = Some (Inr ps) \<and> length ps = 16 \<and>
         last ps = Point (Fin 9) (Fin 12)) \<and>
   (\<exists>ps. curve_as_points_main segment = Some (Inr ps) \<and> length ps = 16 \<and>
         last ps = [Fin 9, Fin 12])"
proof -
  have h: "(1::rat) / 10 ^ 28 \<le> 1 / 4" by simp
  note T = drange_parameters[of "1 / 4" segment]
  from T h obtain n where n: "drange (DFin 0) (DFin 1) (Fin (1 / 4)) =
             Some (Inr (map (\<lambda>i. fl_round (acc 0 (1 / 4) i)) [0..<n]))"
    "\<forall>i<n. 0 \<le> acc 0 (1 / 4) i \<and> acc 0 (1 / 4) i < 1" "1 \<le> acc 0 (1 / 4) n"
    by blast
  have a: "acc 0 (1 / 4) 1 = 1 / 4" "acc 0 (1 / 4) 2 = 1 / 2" "acc 0 (1 / 4) 3 = 3 / 4"
    "acc 0 (1 / 4) 4 = 1"
    by (simp_all add: eval_nat_numeral dec_round_quarters)
  have a3: "acc 0 (1 / 4) 3 < 1" and a4: "1 \<le> acc 0 (1 / 4) 4" by (simp_all only: a)
  have "\<forall>i<4. acc 0 (1 / 4) i < 1"
  proof (intro allI impI)
    fix i :: nat assume "i < 4"
    then have "i = 0 \<or> i = 1 \<or> i = 2 \<or> i = 3" by presburger
    then show "acc 0 (1 / 4) i < 1" by (elim disjE) (simp_all add: a dec_round_quarters)
  qed
  with n(2,3) a4 have "n = 4" by (intro exit_unique[of n "1 / 4" 4]) simp_all
  with n(1) have 1: "drange (DFin 0) (DFin 1) (Fin (1 / 4)) =
     Some (Inr (map (\<lambda>i. fl_round (acc 0 (1 / 4) i)) [0..<4]))" by simp
  have l: "length_curve segment = Fin 15" by (simp add: segment_def)
  from T l valid_segment obtain ps where
    ps: "curve_as_points_video segment (Fin 1) = Some (Inr ps)" "length ps = 16"
      "pointAtTime segment (Fin 1) = Inr (last ps)" by blast
  from ps(3) have "last ps = Point (Fin 9) (Fin 12)" by (simp add: segment_end)
  with ps have 2: "\<exists>ps. curve_as_points_video segment (Fin 1) = Some (Inr ps) \<and> length ps = 16 \<and>
         last ps = Point (Fin 9) (Fin 12)" by blast
  from T l valid_segment obtain qs p where
    qs: "curve_as_points_main segment = Some (Inr qs)" "length qs = 16"
      "pointAtTime segment (Fin 1) = Inr p" "last qs = [point_x p, point_y p]" by blast
  from qs(3) have "p = Point (Fin 9) (Fin 12)" by (simp add: segment_end)
  with qs have 3: "\<exists>ps. curve_as_points_main segment = Some (Inr ps) \<and> length ps = 16 \<and>
         last ps = [Fin 9, Fin 12]" by simp
  show ?thesis by (intro conjI) (rule h 1 a3 a4 parse_segment l valid_segment segment_end 2 3)+
qed

text \<open>
  C10 (amended). For every valid model and every step of at least \<open>10^-28\<close>, the sampler
  returns: the sampled sequence is non-empty and its first element is the position at
  parameter 0, which the generator yields before any increment. (For much smaller steps
  the 28-digit accumulator stops growing below 1 and the loop never ends.)
\<close>

theorem sample_first_point:
  assumes "1 / 10 ^ 28 \<le> s" and "valid_model c"
  shows "\<exists>ps. sample_points c (Fin s) = Some (Inr ps) \<and> ps \<noteq> [] \<and>
              pointAtTime c (Fin 0) = Inr (hd ps)"
proof -
  from sample_points_returns[OF assms] obtain ps
    where "sample_points c (Fin s) = Some (Inr ps)" by blast
  with sample_points_hd[OF this] show ?thesis by blast
qed

theorem sample_first_point_witness:
  "(1::rat) / 10 ^ 28 \<le> 1 / 4 \<and> valid_model arch \<and>
   (\<exists>ps. sample_points arch (Fin (1 / 4)) = Some (Inr ps) \<and> ps \<noteq> [] \<and>
         pointAtTime arch (Fin 0) = Inr (hd ps))"
proof -
  have h: "(1::rat) / 10 ^ 28 \<le> 1 / 4" by simp
  show ?thesis using h valid_arch sample_first_point[OF h valid_arch] by blast
qed

text \<open>
  C10 as stated fails: for the valid model \<open>arch\<close> and the step \<open>2^-200\<close>, which lies
  strictly between 0 and 1, the sampler never returns a sequence.
\<close>

theorem sample_tiny_step_counterexample:
  "valid_model arch \<and> (0::rat) < 1 / 2 ^ 200 \<and> (1::rat) / 2 ^ 200 < 1 \<and>
   sample_points arch (Fin (1 / 2 ^ 200)) = None"
  using valid_arch sample_stalls by simp

text \<open>
  C5 (amended). The sampler does not validate its step and raises no error of its own.
  For every step \<open>s \<le> 0\<close> the accumulator stays \<open>\<le> 0\<close>, so the loop test never fails and
  no sequence is ever returned: the position function is evaluated at the float of each
  accumulator value in turn, and sampling runs forever when all these evaluations
  succeed (for step 0, when the evaluation at parameter 0 succeeds), and otherwise leaves
  with the first exception that the position function raises.
\<close>

theorem sample_nonpositive_step:
  assumes s: "s \<le> 0"
  shows "(\<forall>i. acc 0 s i \<le> 0) \<and>
         (\<forall>ps. sample_points c (Fin s) \<noteq> Some (Inr ps)) \<and>
         ((\<forall>i. \<exists>p. pointAtTime c (fl_round (acc 0 s i)) = Inr p) \<longrightarrow>
            sample_points c (Fin s) = None) \<and>
         (\<forall>k e. (\<forall>i<k. \<exists>p. pointAtTime c (fl_round (acc 0 s i)) = Inr p) \<and>
                 pointAtTime c (fl_round (acc 0 s k)) = Inl e \<longrightarrow>
            sample_points c (Fin s) = Some (Inl e)) \<and>
         (s = 0 \<and> (\<exists>p. pointAtTime c (Fin 0) = Inr p) \<longrightarrow> sample_points c (Fin s) = None)"
proof -
  have neg: "acc 0 s i \<le> 0" for i by (rule acc_nonpos) (use s in simp_all)
  then have lt: "acc 0 s i < 1" for i using neg[of i] by linarith
  have forever: "sample_points c (Fin s) = None"
    if "\<forall>i. \<exists>p. pointAtTime c (fl_round (acc 0 s i)) = Inr p"
    unfolding sample_points_def using lt that by (intro drange_for_forever) simp_all
  have raises: "sample_points c (Fin s) = Some (Inl e)"
    if "\<forall>i<k. \<exists>p. pointAtTime c (fl_round (acc 0 s i)) = Inr p"
      and "pointAtTime c (fl_round (acc 0 s k)) = Inl e" for k e
    unfolding sample_points_def using lt that by (intro drange_for_raises[where k = k]) simp_all
  have never: "sample_points c (Fin s) \<noteq> Some (Inr ps)" for ps
  proof (cases "\<forall>i. \<exists>p. pointAtTime c (fl_round (acc 0 s i)) = Inr p")
    case True
    then show ?thesis by (simp add: forever)
  next
    case False
    define k where "k = (LEAST i. \<not> (\<exists>p. pointAtTime c (fl_round (acc 0 s i)) = Inr p))"
    from False have ex: "\<exists>i. \<not> (\<exists>p. pointAtTime c (fl_round (acc 0 s i)) = Inr p)" by simp
    have "\<not> (\<exists>p. pointAtTime c (fl_round (acc 0 s k)) = Inr p)"
      unfolding k_def using ex by (rule LeastI_ex)
    then obtain e where e: "pointAtTime c (fl_round (acc 0 s k)) = Inl e"
      by (cases "pointAtTime c (fl_round (acc 0 s k))") auto
    have "\<forall>i<k. \<exists>p. pointAtTime c (fl_round (acc 0 s i)) = Inr p"
      using not_less_Least[of _ "\<lambda>i. \<not> (\<exists>p. pointAtTime c (fl_round (acc 0 s i)) = Inr p)"]
      unfolding k_def by blast
    from raises[OF this e] show ?thesis by simp
  qed
  have zero: "sample_points c (Fin s) = None" if "s = 0 \<and> (\<exists>p. pointAtTime c (Fin 0) = Inr p)"
    using that by (intro forever) (simp add: acc_zero_step fl_round_zero)
  from neg never forever raises zero show ?thesis by blast
qed

theorem sample_nonpositive_step_witness:
  "(- 1 / 2 :: rat) \<le> 0 \<and>
   pointAtTime arch (fl_round (acc 0 (- 1 / 2) 0)) = Inr (Point (Fin 0) (Fin 0)) \<and>
   fl_round (acc 0 (- 1 / 2) 1) = Fin (- 1 / 2) \<and>
   pointAtTime arch (fl_round (acc 0 (- 1 / 2) 1)) = Inl IndexError \<and>
   sample_points arch (Fin (- 1 / 2)) = Some (Inl IndexError) \<and>
   (0 :: rat) \<le> 0 \<and>
   pointAtTime arch (Fin 0) = Inr (Point (Fin 0) (Fin 0)) \<and>
   (\<forall>i. \<exists>p. pointAtTime arch (fl_round (acc 0 0 i)) = Inr p) \<and>
   sample_points arch (Fin 0) = None"
proof -
  have h: "(- 1 / 2 :: rat) \<le> 0" by simp
  have a0: "pointAtTime arch (fl_round (acc 0 (- 1 / 2) 0)) = Inr (Point (Fin 0) (Fin 0))"
    by (simp add: fl_round_zero arch_at)
  have f1: "fl_round (acc 0 (- 1 / 2) 1) = Fin (- 1 / 2)"
    using dec_round_neg_half fl_round_neg_half by simp
  have a1: "pointAtTime arch (fl_round (acc 0 (- 1 / 2) 1)) = Inl IndexError"
    unfolding f1 by (simp add: arch_def)
  have b: "\<forall>i<1. \<exists>p. pointAtTime arch (fl_round (acc 0 (- 1 / 2) i)) = Inr p"
    using a0 by simp
  have 1: "sample_points arch (Fin (- 1 / 2)) = Some (Inl IndexError)"
    using sample_nonpositive_step[OF h, of arch] a1 b by blast
  have z: "(0 :: rat) \<le> 0" by simp
  have p0: "pointAtTime arch (Fin 0) = Inr (Point (Fin 0) (Fin 0))" by (rule arch_at)
  have all: "\<forall>i. \<exists>p. pointAtTime arch (fl_round (acc 0 0 i)) = Inr p"
    by (simp add: acc_zero_step fl_round_zero arch_at)
  have 2: "sample_points arch (Fin 0) = None"
    using sample_nonpositive_step[OF z, of arch] p0 by blast
  show ?thesis by (intro conjI) (rule h a0 f1 a1 1 z p0 all 2)+
qed

text \<open>
  C5 as stated fails: with step 0 the sampler evaluates the valid model \<open>arch\<close> at
  parameter 0 again and again; it raises nothing and never returns.
\<close>

theorem sample_zero_step_counterexample:
  "sample_points arch (Fin 0) = None"
  unfolding sample_points_def
proof (rule drange_for_diverges[where I = "\<lambda>x. x = 0"])
  show "(0::rat) = 0" by simp
next
  fix x :: rat
  assume "x = 0"
  then show "x < 1 \<and> (\<exists>p. pointAtTime arch (fl_round x) = Inr p) \<and> dec_round (x + 0) = 0"
    by (simp add: fl_round_zero dec_round_zero arch_def)
qed

text \<open>
  C4 (amended). For every model of total length zero, sampling raises
  \<^verbatim>\<open>ZeroDivisionError\<close> in both programs (for every finite time per frame), before any
  point is evaluated; and no model at all is sampled to a sequence of zero points.
\<close>

theorem zero_length_raises:
  assumes "length_curve c = Fin 0"
  shows "curve_as_points_main c = Some (Inl ZeroDivisionError) \<and>
         curve_as_points_video c (Fin tpf) = Some (Inl ZeroDivisionError) \<and>
         curve_as_points_main c' \<noteq> Some (Inr []) \<and>
         curve_as_points_video c' tpf' \<noteq> Some (Inr [])"
proof -
  have 1: "curve_as_points_main c = Some (Inl ZeroDivisionError)"
    using assms by (simp add: curve_as_points_main_def)
  have 2: "curve_as_points_video c (Fin tpf) = Some (Inl ZeroDivisionError)"
    using assms by (simp add: curve_as_points_video_def fl_round_zero)
  have 3: "curve_as_points_main c' \<noteq> Some (Inr [])"
  proof (cases "truediv (Fin 1) (length_curve c')")
    case (Inl e)
    then show ?thesis by (simp add: curve_as_points_main_def)
  next
    case (Inr j)
    show ?thesis
    proof
      assume "curve_as_points_main c' = Some (Inr [])"
      with Inr obtain r where r: "sample_points c' j = Some r"
        and e: "(case r of Inl e \<Rightarrow> Inl e
                 | Inr points \<Rightarrow> Inr (map (\<lambda>(x, y). [x, y])
                     (zip (map point_x points) (map point_y points))))
                = (Inr [] :: error + pyfloat list list)"
        by (auto simp: curve_as_points_main_def bind_eq_Some_conv)
      from e have "r = Inr []" by (cases r) auto
      with r sample_points_nonempty show False by blast
    qed
  qed
  have 4: "curve_as_points_video c' tpf' \<noteq> Some (Inr [])"
    using sample_points_nonempty
    by (auto simp: curve_as_points_video_def split: sum.splits)
  from 1 2 3 4 show ?thesis by blast
qed

theorem zero_length_raises_witness:
  "length_curve single_point = Fin 0 \<and>
   curve_as_points_main single_point = Some (Inl ZeroDivisionError) \<and>
   curve_as_points_video single_point (Fin (3 / 5)) = Some (Inl ZeroDivisionError)"
proof -
  have h: "length_curve single_point = Fin 0" by (simp add: single_point_def)
  show ?thesis using h zero_length_raises[OF h, of "3 / 5"] by blast
qed

text \<open>
  C4 as stated fails: the single-point path of length zero is not sampled to zero
  points; both programs raise.
\<close>

theorem degenerate_path_counterexample:
  "curve_as_points_video single_point (Fin 1) = Some (Inl ZeroDivisionError) \<and>
   curve_as_points_main single_point = Some (Inl ZeroDivisionError)"
  by (simp add: curve_as_points_video_def curve_as_points_main_def single_point_def fl_round_zero)

text \<open>
  C9. In video mode the sampling step is \<open>1 / (length * time_per_frame)\<close>, in interactive
  mode it is \<open>1 / length\<close> (both in float arithmetic), and apart from the step both modes
  run the same comprehension: the interactive result is the video result for a time per
  frame of 1, with every point turned into the list of its two coordinates.
\<close>

theorem sampling_step_of_modes:
  "(\<forall>m. fmul (length_curve c) tpf = Fin m \<and> m \<noteq> 0 \<longrightarrow>
        curve_as_points_video c tpf = sample_points c (fl_round (1 / m))) \<and>
   (\<forall>l. length_curve c = Fin l \<and> l \<noteq> 0 \<longrightarrow>
        curve_as_points_main c =
          Option.bind (sample_points c (fl_round (1 / l)))
            (\<lambda>r. Some (case r of Inl e \<Rightarrow> Inl e
                        | Inr points \<Rightarrow> Inr (map (\<lambda>p. [point_x p, point_y p]) points)))) \<and>
   (is_float (length_curve c) \<longrightarrow>
        curve_as_points_main c =
          Option.bind (curve_as_points_video c (Fin 1))
            (\<lambda>r. Some (case r of Inl e \<Rightarrow> Inl e
                        | Inr points \<Rightarrow> Inr (map (\<lambda>p. [point_x p, point_y p]) points))))"
proof (intro conjI allI impI)
  fix m
  assume "fmul (length_curve c) tpf = Fin m \<and> m \<noteq> 0"
  then show "curve_as_points_video c tpf = sample_points c (fl_round (1 / m))"
    by (simp add: curve_as_points_video_def)
next
  fix l
  assume "length_curve c = Fin l \<and> l \<noteq> 0"
  then show "curve_as_points_main c =
      Option.bind (sample_points c (fl_round (1 / l)))
        (\<lambda>r. Some (case r of Inl e \<Rightarrow> Inl e
                    | Inr points \<Rightarrow> Inr (map (\<lambda>p. [point_x p, point_y p]) points)))"
    by (simp add: curve_as_points_main_def zip_xy cong: sum.case_cong)
next
  assume "is_float (length_curve c)"
  then have "fmul (length_curve c) (Fin 1) = length_curve c" by (rule fmul_one)
  then show "curve_as_points_main c =
      Option.bind (curve_as_points_video c (Fin 1))
        (\<lambda>r. Some (case r of Inl e \<Rightarrow> Inl e
                    | Inr points \<Rightarrow> Inr (map (\<lambda>p. [point_x p, point_y p]) points)))"
    by (cases "truediv (Fin 1) (length_curve c)")
       (simp_all add: curve_as_points_main_def curve_as_points_video_def zip_xy cong: sum.case_cong)
qed

theorem sampling_step_of_modes_witness:
  "fmul (length_curve arch) (Fin (1 / 4)) = Fin 5 \<and> (5::rat) \<noteq> 0 \<and>
   curve_as_points_video arch (Fin (1 / 4)) = sample_points arch (fl_round (1 / 5)) \<and>
   length_curve arch = Fin 20 \<and> (20::rat) \<noteq> 0 \<and>
   curve_as_points_main arch =
     Option.bind (sample_points arch (fl_round (1 / 20)))
       (\<lambda>r. Some (case r of Inl e \<Rightarrow> Inl e
                   | Inr points \<Rightarrow> Inr (map (\<lambda>p. [point_x p, point_y p]) points))) \<and>
   is_float (length_curve arch) \<and>
   curve_as_points_main arch =
     Option.bind (curve_as_points_video arch (Fin 1))
       (\<lambda>r. Some (case r of Inl e \<Rightarrow> Inl e
                   | Inr points \<Rightarrow> Inr (map (\<lambda>p. [point_x p, point_y p]) points)))"
proof -
  have a: "fmul (length_curve arch) (Fin (1 / 4)) = Fin 5"
    by (simp add: arch_def fl_round_5)
  have b: "length_curve arch = Fin 20" by (simp add: arch_def)
  have f: "is_float (length_curve arch)" by (simp add: arch_def is_float_def fl_round_20)
  have n: "(5::rat) \<noteq> 0" "(20::rat) \<noteq> 0" by simp_all
  note T = sampling_step_of_modes[of arch "Fin (1 / 4)"]
  from T a n have 1: "curve_as_points_video arch (Fin (1 / 4)) = sample_points arch (fl_round (1 / 5))"
    by blast
  from T b n have 2: "curve_as_points_main arch =
     Option.bind (sample_points arch (fl_round (1 / 20)))
       (\<lambda>r. Some (case r of Inl e \<Rightarrow> Inl e
                   | Inr points \<Rightarrow> Inr (map (\<lambda>p. [point_x p, point_y p]) points)))"
    by blast
  from T f have 3: "curve_as_points_main arch =
     Option.bind (curve_as_points_video arch (Fin 1))
       (\<lambda>r. Some (case r of Inl e \<Rightarrow> Inl e
                   | Inr points \<Rightarrow> Inr (map (\<lambda>p. [point_x p, point_y p]) points)))"
    by blast
  show ?thesis by (intro conjI) (rule a b f n 1 2 3)+
qed

section \<open>Claims about the parser\<close>

text \<open>
  C3 (amended). The parser has no error of its own. In \<^verbatim>\<open>video_writer.py\<close>,
  \<^verbatim>\<open>parse_svg_str\<close> raises \<^verbatim>\<open>ValueError\<close> exactly when some chunk (a piece between the
  command letters that is longer than one character after stripping) holds a
  whitespace-separated token that \<^verbatim>\<open>float\<close> rejects; otherwise it raises \<^verbatim>\<open>IndexError\<close>
  exactly when the first or the last chunk holds fewer than two numbers or another chunk
  holds fewer than six; it raises nothing else. In \<^verbatim>\<open>main.py\<close> the function raises
  \<^verbatim>\<open>ValueError\<close> in the same cases; it agrees with the one of \<^verbatim>\<open>video_writer.py\<close> on
  every string whose chunks between the first and the last hold exactly six tokens each;
  and it fails, with some exception, when all tokens are numbers and one of those chunks
  holds fewer than six. (What else \<^verbatim>\<open>main.py\<close> does with such a chunk of another size is
  not stated: its assertion on the size is meant to fail there.) In both programs the
  bare string \<^verbatim>\<open>"M"\<close> is parsed to the empty node list.
\<close>

theorem parse_failures:
  "(parse_svg_str s = Inl ValueError \<longleftrightarrow>
      (\<exists>c\<in>set (chunks s). \<exists>t\<in>set (py_split c). py_float t = None)) \<and>
   (parse_svg_str s = Inl IndexError \<longleftrightarrow>
      (\<forall>c\<in>set (chunks s). \<forall>t\<in>set (py_split c). py_float t \<noteq> None) \<and>
      (\<exists>k<length (chunks s). length (py_split (chunks s ! k)) < needed (length (chunks s)) k)) \<and>
   (\<forall>e. parse_svg_str s = Inl e \<longrightarrow> e = ValueError \<or> e = IndexError) \<and>
   (parse_svg_str_main s = Inl ValueError \<longleftrightarrow>
      (\<exists>c\<in>set (chunks s). \<exists>t\<in>set (py_split c). py_float t = None)) \<and>
   ((\<forall>k<length (chunks s). 0 < k \<and> Suc k < length (chunks s) \<longrightarrow>
        length (py_split (chunks s ! k)) = 6) \<longrightarrow>
      parse_svg_str_main s = parse_svg_str s) \<and>
   ((\<forall>c\<in>set (chunks s). \<forall>t\<in>set (py_split c). py_float t \<noteq> None) \<and>
    (\<exists>k<length (chunks s). 0 < k \<and> Suc k < length (chunks s) \<and>
        length (py_split (chunks s ! k)) < 6) \<longrightarrow>
      (\<exists>e. parse_svg_str_main s = Inl e)) \<and>
   parse_svg_str ''M'' = Inr [] \<and> parse_svg_str_main ''M'' = Inr []"
proof -
  have n: "(\<forall>k<length (numbers s). needed (length (numbers s)) k \<le> length (numbers s ! k)) \<longleftrightarrow>
           \<not> (\<exists>k<length (chunks s). length (py_split (chunks s ! k)) < needed (length (chunks s)) k)"
  proof -
    have "(\<forall>k<length (numbers s). needed (length (numbers s)) k \<le> length (numbers s ! k)) \<longleftrightarrow>
          (\<forall>k<length (chunks s). needed (length (chunks s)) k \<le> length (py_split (chunks s ! k)))"
      unfolding length_numbers by (intro all_cong1 imp_cong refl) (simp add: numbers_nth)
    also have "\<dots> \<longleftrightarrow>
          \<not> (\<exists>k<length (chunks s). length (py_split (chunks s ! k)) < needed (length (chunks s)) k)"
      by (meson not_le)
    finally show ?thesis .
  qed
  have 1: "parse_svg_str s = Inl ValueError \<longleftrightarrow>
      (\<exists>c\<in>set (chunks s). \<exists>t\<in>set (py_split c). py_float t = None)"
    by (simp add: parse_svg_str_char)
  have 2: "parse_svg_str s = Inl IndexError \<longleftrightarrow>
      (\<forall>c\<in>set (chunks s). \<forall>t\<in>set (py_split c). py_float t \<noteq> None) \<and>
      (\<exists>k<length (chunks s). length (py_split (chunks s ! k)) < needed (length (chunks s)) k)"
    unfolding parse_svg_str_char n by auto
  have 3: "\<forall>e. parse_svg_str s = Inl e \<longrightarrow> e = ValueError \<or> e = IndexError"
    by (auto simp: parse_svg_str_char split: if_splits)
  have 4: "parse_svg_str_main s = Inl ValueError \<longleftrightarrow>
      (\<exists>c\<in>set (chunks s). \<exists>t\<in>set (py_split c). py_float t = None)"
    unfolding parse_svg_str_main_eq by (rule 1)
  have 5: "parse_svg_str_main ''M'' = Inr []"
    unfolding parse_svg_str_main_eq by (rule parse_examples(1))
  have 6: "\<exists>e. parse_svg_str_main s = Inl e"
    if "(\<forall>c\<in>set (chunks s). \<forall>t\<in>set (py_split c). py_float t \<noteq> None) \<and>
        (\<exists>k<length (chunks s). 0 < k \<and> Suc k < length (chunks s) \<and>
            length (py_split (chunks s ! k)) < 6)"
  proof -
    from that obtain k where k: "k < length (chunks s)" "0 < k" "Suc k < length (chunks s)"
      "length (py_split (chunks s ! k)) < 6" by blast
    then have "length (py_split (chunks s ! k)) < needed (length (chunks s)) k"
      by (simp add: needed_def)
    with k(1) that have "parse_svg_str s = Inl IndexError" unfolding 2 by blast
    then show ?thesis by (simp add: parse_svg_str_main_eq)
  qed
  from 1 2 3 4 5 6 parse_svg_str_main_eq parse_examples(1) show ?thesis by blast
qed

theorem parse_failures_witness:
  "parse_svg_str ''M 0 0 L x y'' = Inl ValueError \<and>
   parse_svg_str_main ''M 0 0 L x y'' = Inl ValueError \<and>
   parse_svg_str ''M 0 0 C 1 2 3 4 5 C 1 2 3 4 5 6'' = Inl IndexError \<and>
   (\<exists>e. parse_svg_str_main ''M 0 0 C 1 2 3 4 5 C 1 2 3 4 5 6'' = Inl e) \<and>
   chunks ''M 0 0 L 1 2 3 4 5 6 L 9 9'' = [''0 0'', ''1 2 3 4 5 6'', ''9 9''] \<and>
   length (py_split ''1 2 3 4 5 6'') = 6 \<and>
   parse_svg_str_main ''M 0 0 L 1 2 3 4 5 6 L 9 9'' = parse_svg_str ''M 0 0 L 1 2 3 4 5 6 L 9 9''"
proof -
  have c1: "chunks ''M 0 0 L x y'' = [''0 0'', ''x y'']"
    by (simp add: chunks_def strip_chars_def)
  have bad: "\<exists>c\<in>set (chunks ''M 0 0 L x y''). \<exists>t\<in>set (py_split c). py_float t = None"
    unfolding c1 by (simp add: py_split_def is_space_def whitespace_def py_float_bad)
  note V = parse_failures[of "''M 0 0 L x y''"]
  from bad V have 1: "parse_svg_str ''M 0 0 L x y'' = Inl ValueError" by blast
  from bad V have 2: "parse_svg_str_main ''M 0 0 L x y'' = Inl ValueError" by blast
  have c2: "chunks ''M 0 0 C 1 2 3 4 5 C 1 2 3 4 5 6'' = [''0 0'', ''1 2 3 4 5'', ''1 2 3 4 5 6'']"
    by (simp add: chunks_def strip_chars_def)
  have a: "\<forall>c\<in>set (chunks ''M 0 0 C 1 2 3 4 5 C 1 2 3 4 5 6''). \<forall>t\<in>set (py_split c). py_float t \<noteq> None"
    unfolding c2 by (simp add: py_split_def is_space_def whitespace_def py_float_digits)
  have "length (py_split (chunks ''M 0 0 C 1 2 3 4 5 C 1 2 3 4 5 6'' ! 1))
        < needed (length (chunks ''M 0 0 C 1 2 3 4 5 C 1 2 3 4 5 6'')) 1"
    unfolding c2 by (simp add: py_split_def is_space_def whitespace_def needed_def)
  moreover have "(1::nat) < length (chunks ''M 0 0 C 1 2 3 4 5 C 1 2 3 4 5 6'')"
    unfolding c2 by simp
  ultimately have b: "\<exists>k<length (chunks ''M 0 0 C 1 2 3 4 5 C 1 2 3 4 5 6'').
      length (py_split (chunks ''M 0 0 C 1 2 3 4 5 C 1 2 3 4 5 6'' ! k))
        < needed (length (chunks ''M 0 0 C 1 2 3 4 5 C 1 2 3 4 5 6'')) k"
    by blast
  note T = parse_failures[of "''M 0 0 C 1 2 3 4 5 C 1 2 3 4 5 6''"]
  from a b T have 3: "parse_svg_str ''M 0 0 C 1 2 3 4 5 C 1 2 3 4 5 6'' = Inl IndexError"
    by blast
  have "\<exists>k<length (chunks ''M 0 0 C 1 2 3 4 5 C 1 2 3 4 5 6''). 0 < k \<and>
      Suc k < length (chunks ''M 0 0 C 1 2 3 4 5 C 1 2 3 4 5 6'') \<and>
      length (py_split (chunks ''M 0 0 C 1 2 3 4 5 C 1 2 3 4 5 6'' ! k)) < 6"
    unfolding c2 by (intro exI[of _ 1]) (simp add: py_split_def is_space_def whitespace_def)
  with a T have m: "\<exists>e. parse_svg_str_main ''M 0 0 C 1 2 3 4 5 C 1 2 3 4 5 6'' = Inl e"
    by blast
  have c3: "chunks ''M 0 0 L 1 2 3 4 5 6 L 9 9'' = [''0 0'', ''1 2 3 4 5 6'', ''9 9'']"
    by (simp add: chunks_def strip_chars_def)
  have l: "length (py_split ''1 2 3 4 5 6'') = 6"
    by (simp add: py_split_def is_space_def whitespace_def)
  have six: "\<forall>k<length (chunks ''M 0 0 L 1 2 3 4 5 6 L 9 9'').
      0 < k \<and> Suc k < length (chunks ''M 0 0 L 1 2 3 4 5 6 L 9 9'') \<longrightarrow>
      length (py_split (chunks ''M 0 0 L 1 2 3 4 5 6 L 9 9'' ! k)) = 6"
  proof (intro allI impI)
    fix k
    assume "k < length (chunks ''M 0 0 L 1 2 3 4 5 6 L 9 9'')"
      and "0 < k \<and> Suc k < length (chunks ''M 0 0 L 1 2 3 4 5 6 L 9 9'')"
    then have "k = 1" unfolding c3 by simp
    then show "length (py_split (chunks ''M 0 0 L 1 2 3 4 5 6 L 9 9'' ! k)) = 6"
      unfolding c3 using l by simp
  qed
  from six parse_failures[of "''M 0 0 L 1 2 3 4 5 6 L 9 9''"]
  have 4: "parse_svg_str_main ''M 0 0 L 1 2 3 4 5 6 L 9 9'' = parse_svg_str ''M 0 0 L 1 2 3 4 5 6 L 9 9''"
    by blast
  show ?thesis by (intro conjI) (rule 1 2 3 m c3 l 4)+
qed

text \<open>
  C3 as stated fails on each of its three cases: the bare string \<^verbatim>\<open>"M"\<close> is parsed
  without error; so is a final curve-to command with five numbers; and so is a string
  with the unparsable token \<^verbatim>\<open>x\<close>, which is dropped for being a chunk of one character.
\<close>

theorem parse_no_error_counterexample:
  "parse_svg_str ''M'' = Inr [] \<and>
   parse_svg_str ''M 0 0 C 1 2 3 4 5'' =
     Inr [Node (Fin 0) (Fin 0) ''curve'', Node (Fin 1) (Fin 2) ''curve''] \<and>
   py_float ''x'' = None \<and>
   parse_svg_str ''M 0 0 L x L 1 1'' =
     Inr [Node (Fin 0) (Fin 0) ''curve'', Node (Fin 1) (Fin 1) ''curve'']"
  by (intro conjI) (rule parse_examples(1) parse_examples(2) parse_examples(3) py_float_bad(1))+




section \<open>The batch loader\<close>

text \<open>
  C7. The claim asks that a failure on one path never stops the batch. The loader does
  skip a file whose XML is malformed (first statement below), and \<^verbatim>\<open>main.py\<close> means to
  skip a path with a wrong number count: it asserts the count and handles
  \<^verbatim>\<open>AssertionError\<close>. But the assertion is on a tuple and never fires, so a malformed path
  raises \<^verbatim>\<open>IndexError\<close> or \<^verbatim>\<open>ValueError\<close>, which no handler catches: the whole batch is
  lost, the well-formed path with it. A batch whose only file is malformed XML is not
  survived either: the final \<^verbatim>\<open>del\<close> raises.
\<close>

theorem create_curves_aborts:
  "create_curves Inr [PathData ''M 0 0 L 1 1'', XmlError SyntaxError] =
     Inr ([(0, [Node (Fin 0) (Fin 0) ''curve'', Node (Fin 1) (Fin 1) ''curve''])],
          [ParsingErrorOnFile 1]) \<and>
   create_curves Inr [PathData ''M 0 0 L 1 1'', PathData ''M 0 0 C 1 2 3 4 5 C 1 2 3 4 5 6''] =
     Inl IndexError \<and>
   create_curves Inr [PathData ''M 0 0 L 1 1'', PathData ''M 0 0 L x y''] = Inl ValueError \<and>
   create_curves (Inr :: node list \<Rightarrow> error + node list) [XmlError SyntaxError] =
     Inl UnboundLocalError"
  by (simp add: create_curves_def try_body_def bind_err_def parse_svg_str_main_eq parse_examples)

end
